theory Spec2Isabelle
  imports Main "HOL-Library.Word"
begin

section \<open>Strings\<close>

text \<open>
  A Go string is a sequence of bytes; \<open>len\<close> counts bytes and \<open>s[i:j]\<close> cuts at byte
  offsets. \<^typ>\<open>string\<close> (a list of 8-bit characters) is that sequence.
\<close>

text \<open>
  The ASCII white space of the \<open>strings\<close> package (its table \<open>asciiSpace\<close>): tab,
  line feed, vertical tab, form feed, carriage return and space.
\<close>

definition asciiSpace :: "char \<Rightarrow> bool" where
  "asciiSpace c \<longleftrightarrow>
     c = CHR 0x09 \<or> c = CHR 0x0A \<or> c = CHR 0x0B \<or> c = CHR 0x0C \<or> c = CHR 0x0D \<or> c = CHR 0x20"

text \<open>
  The UTF-8 encodings of the characters for which \<open>unicode.IsSpace\<close> holds: the six
  ASCII ones, U+0085, U+00A0, U+1680, U+2000 to U+200A, U+2028, U+2029, U+202F, U+205F
  and U+3000.
\<close>

definition space_encodings :: "string list" where
  "space_encodings =
     [[CHR 0x09], [CHR 0x0A], [CHR 0x0B], [CHR 0x0C], [CHR 0x0D], [CHR 0x20],
      [CHR 0xC2, CHR 0x85], [CHR 0xC2, CHR 0xA0],
      [CHR 0xE1, CHR 0x9A, CHR 0x80],
      [CHR 0xE2, CHR 0x80, CHR 0x80], [CHR 0xE2, CHR 0x80, CHR 0x81],
      [CHR 0xE2, CHR 0x80, CHR 0x82], [CHR 0xE2, CHR 0x80, CHR 0x83],
      [CHR 0xE2, CHR 0x80, CHR 0x84], [CHR 0xE2, CHR 0x80, CHR 0x85],
      [CHR 0xE2, CHR 0x80, CHR 0x86], [CHR 0xE2, CHR 0x80, CHR 0x87],
      [CHR 0xE2, CHR 0x80, CHR 0x88], [CHR 0xE2, CHR 0x80, CHR 0x89],
      [CHR 0xE2, CHR 0x80, CHR 0x8A],
      [CHR 0xE2, CHR 0x80, CHR 0xA8], [CHR 0xE2, CHR 0x80, CHR 0xA9],
      [CHR 0xE2, CHR 0x80, CHR 0xAF],
      [CHR 0xE2, CHR 0x81, CHR 0x9F],
      [CHR 0xE3, CHR 0x80, CHR 0x80]]"

text \<open>
  Removing from the head of \<open>s\<close>, as long as there is one, a byte sequence of the list
  \<open>encs\<close>.
\<close>

function strip_leading :: "string list \<Rightarrow> string \<Rightarrow> string" where
  "strip_leading encs s =
     (case find (\<lambda>t. t \<noteq> [] \<and> take (length t) s = t) encs of
        None \<Rightarrow> s
      | Some t \<Rightarrow> strip_leading encs (drop (length t) s))"
  by pat_completeness auto
termination
proof (relation "measure (\<lambda>(encs, s). length s)")
  show "wf (measure (\<lambda>(encs, s). length s))" by simp
next
  fix encs :: "string list" and s t :: string
  assume "find (\<lambda>t. t \<noteq> [] \<and> take (length t) s = t) encs = Some t"
  then have t: "t \<noteq> []" "take (length t) s = t" by (auto simp: find_Some_iff)
  then have "s \<noteq> []" by auto
  with t(1) show "((encs, drop (length t) s), (encs, s)) \<in> measure (\<lambda>(encs, s). length s)"
    by simp
qed

declare strip_leading.simps [simp del]

text \<open>
  \<open>strings.TrimSpace\<close> (Go standard library) returns \<open>s\<close> without its leading and
  trailing white space, as \<open>unicode.IsSpace\<close> defines it. The library walks over ASCII
  bytes directly and decodes UTF-8 at the first byte \<open>\<ge> 0x80\<close>, from the front and
  then from the back; a byte sequence that is not valid UTF-8 decodes to the replacement
  character, which is not white space. Since only the first byte of an encoding can
  start a character, this removes the listed encodings from the head and then from the
  tail, as long as there is one.
\<close>

definition TrimSpace :: "string \<Rightarrow> string" where
  "TrimSpace s =
     rev (strip_leading (map rev space_encodings) (rev (strip_leading space_encodings s)))"

text \<open>
  The number of characters of a text in UTF-8: every byte starts a character, except
  the continuation bytes \<open>0x80\<close> to \<open>0xBF\<close>. The code never computes it (\<open>len\<close>
  counts bytes); it is the count the word "characters" stands for.
\<close>

definition utf8_characters :: "string \<Rightarrow> nat" where
  "utf8_characters s =
     length (filter (\<lambda>c. \<not> (128 \<le> (of_char c :: nat) \<and> (of_char c :: nat) < 192)) s)"

text \<open>
  The slice expression \<open>s[i:e]\<close>. Go panics unless \<open>0 \<le> i \<le> e \<le> len(s)\<close>; every
  slice taken by the code below is within these bounds.
\<close>

definition substr :: "string \<Rightarrow> nat \<Rightarrow> nat \<Rightarrow> string" where
  "substr s i e = take (e - i) (drop i s)"

section \<open>Chunker (internal/processing/chunker.go)\<close>

text \<open>
  \<open>regexp.MustCompile(`\n{2,}`).Split(text, -1)\<close>: the pieces of \<open>text\<close> between the
  maximal runs of two or more line feeds. A run at the very start or end of the text
  leaves an empty piece there, and the empty text gives one empty piece. \<open>cur\<close> is the
  piece read so far.
\<close>

function re_Split :: "string \<Rightarrow> string \<Rightarrow> string list" where
  "re_Split cur [] = [cur]"
| "re_Split cur [c] = [cur @ [c]]"
| "re_Split cur (c # d # cs) =
     (if c = CHR 0x0A \<and> d = CHR 0x0A
      then cur # re_Split [] (dropWhile (\<lambda>x. x = CHR 0x0A) cs)
      else re_Split (cur @ [c]) (d # cs))"
  by pat_completeness auto
termination
  by (relation "measure (\<lambda>(cur, s). length s)")
     (auto simp: less_Suc_eq_le intro: le_trans [OF length_dropWhile_le])

text \<open>
  The loop of \<open>splitLong\<close>:
  \<^verbatim>\<open>
  for i := 0; i < len(s); i += (max - overlap) {
      end := i + max
      if end > len(s) { end = len(s) }
      res = append(res, strings.TrimSpace(s[i:end]))
      if end == len(s) { break }
  }
  return res
  \<close>
  \<open>max\<close> and \<open>overlap\<close> are the non-negative values the callers pass. With
  \<open>max \<le> overlap\<close> the step is zero or negative: the loop, entered only when
  \<open>len(s) > max\<close>, then appends for ever or slices at a negative index and panics. Both
  are the result \<open>None\<close>.
\<close>

function splitLong_loop :: "string \<Rightarrow> nat \<Rightarrow> nat \<Rightarrow> nat \<Rightarrow> string list \<Rightarrow> string list option" where
  "splitLong_loop s mx overlap i res =
     (if mx \<le> overlap then None
      else if i < length s then
        (let e = (if i + mx > length s then length s else i + mx);
             res' = res @ [TrimSpace (substr s i e)]
         in if e = length s then Some res'
            else splitLong_loop s mx overlap (i + (mx - overlap)) res')
      else Some res)"
  by pat_completeness auto
termination
  by (relation "measure (\<lambda>(s, mx, overlap, i, res). length s - i)") (auto split: if_splits)

declare splitLong_loop.simps [simp del]

definition splitLong :: "string \<Rightarrow> nat \<Rightarrow> nat \<Rightarrow> string list option" where
  "splitLong s mx overlap =
     (if length s \<le> mx then Some [s] else splitLong_loop s mx overlap 0 [])"

text \<open>
  \<open>ChunkText\<close>: the loop over the paragraphs, \<open>out\<close> being the chunks appended so far.
\<close>

fun ChunkText_loop :: "string list \<Rightarrow> string list \<Rightarrow> string list option" where
  "ChunkText_loop [] out = Some out"
| "ChunkText_loop (p # paras) out =
     (let p' = TrimSpace p
      in if p' = [] then ChunkText_loop paras out
         else (case splitLong p' 1000 200 of
                 None \<Rightarrow> None
               | Some ws \<Rightarrow> ChunkText_loop paras (out @ ws)))"

definition ChunkText :: "string \<Rightarrow> string list option" where
  "ChunkText text = ChunkText_loop (re_Split [] text) []"

section \<open>Errors, events and the environment\<close>

text \<open>
  Go errors are values. \<open>LibError\<close> is an error produced outside this repository (the
  operating system, a library, an external tool); the other constructors are the errors
  the repository's code creates or wraps, with the data their messages carry.
\<close>

datatype error =
    LibError string
  | UnsupportedFileType
  | PdftoppmConvertFailed error
  | NoChunks
  | FailedEmbeddingChunk nat error
  | EmptyQuery
  | RequestFailed error
  | OllamaError string
  | FailedDecodeResponse error
  | ExpectedEmbeddingDim nat nat
  | CreatingOllamaRequest error
  | CallingOllama error
  | DecodingOllamaResponse error

text \<open>
  A \<open>float32\<close> is carried as its 32 bits; the code stores and passes embedding
  components and never computes with them.
\<close>

type_synonym float32 = "32 word"

text \<open>The calls the code makes to the outside world, in the order it makes them.\<close>

datatype event =
    ReadFile string
  | PdfOpen string
  | Pdftotext string
  | Pdftoppm string
  | Tesseract string
  | EmbedPost string
  | GeneratePost string
  | DBInsert string string string "float32 list"

text \<open>
  The mutable world: \<open>tmp_pngs\<close> lists the files of the temporary directory whose names
  match \<open>uda_pdfimg-*.png\<close>, sorted and without duplicates, as \<open>filepath.Glob\<close> lists
  them; \<open>trace\<close> is the log of outside calls.
\<close>

record world =
  tmp_pngs :: "string list"
  trace :: "event list"

datatype http_reply = ConnError error | HttpResponse nat string

text \<open>
  One outcome of \<open>decoder.Decode(&chunk)\<close> on the generation stream. The stream body is
  a finite list of outcomes; reading past its end is \<open>io.EOF\<close>.
\<close>

datatype decode_event = Fragment string bool | DecodeError error

datatype gen_reply = DoFailed error | Body "decode_event list"

text \<open>
  What the outside world answers. Every answer may depend on the history of calls made
  so far (the first argument).
  \<^item> \<open>read_file\<close>: \<open>os.ReadFile\<close>.
  \<^item> \<open>pdf_plain_text\<close>: \<open>pdf.Open\<close>, \<open>GetPlainText\<close> and \<open>io.Copy\<close> of the PDF
    library; the error of whichever fails first, or the text.
  \<^item> \<open>pdftotext\<close>, \<open>pdftoppm\<close>: the poppler tools; \<open>pdftoppm\<close> answers with its exit
    error, if any, and the names of the page images it wrote.
  \<^item> \<open>glob_error\<close>: the error of \<open>filepath.Glob\<close> (a malformed pattern), if any.
  \<^item> \<open>tesseract\<close>: \<open>SetImage\<close> and \<open>Text\<close> of the recognition client; the error of
    whichever fails first, or the recognised text.
  \<^item> \<open>embed_post\<close>: \<open>http.Post\<close> to the embedding endpoint with the given prompt.
  \<^item> \<open>decode_embedding\<close>: \<open>json.Decoder.Decode\<close> of a response body into the
    \<open>embedding\<close> field.
  \<^item> \<open>new_request_error\<close>: the error of \<open>http.NewRequestWithContext\<close>, if any.
  \<^item> \<open>generate\<close>: \<open>http.DefaultClient.Do\<close> on the generation endpoint with the given
    prompt.
  \<^item> \<open>quote\<close>: the \<open>%q\<close> verb of \<open>fmt.Sprintf\<close>.
  \<^item> \<open>db_insert\<close>: the \<open>INSERT\<close> of \<open>storage.InsertEmbedding\<close>.
\<close>

record env =
  read_file :: "event list \<Rightarrow> string \<Rightarrow> error + string"
  pdf_plain_text :: "event list \<Rightarrow> string \<Rightarrow> error + string"
  pdftotext :: "event list \<Rightarrow> string \<Rightarrow> error + string"
  pdftoppm :: "event list \<Rightarrow> string \<Rightarrow> error option \<times> string list"
  glob_error :: "error option"
  tesseract :: "event list \<Rightarrow> string \<Rightarrow> error + string"
  embed_post :: "event list \<Rightarrow> string \<Rightarrow> http_reply"
  decode_embedding :: "string \<Rightarrow> error + float32 list"
  new_request_error :: "error option"
  generate :: "event list \<Rightarrow> string \<Rightarrow> gen_reply"
  quote :: "string \<Rightarrow> string"
  db_insert :: "event list \<Rightarrow> string \<Rightarrow> string \<Rightarrow> string \<Rightarrow> float32 list \<Rightarrow> error option"

definition record_event :: "event \<Rightarrow> world \<Rightarrow> world" where
  "record_event ev w = w\<lparr>trace := trace w @ [ev]\<rparr>"

section \<open>Extractor (internal/ingestion)\<close>

text \<open>
  \<open>filepath.Ext\<close>: the suffix beginning at the last dot of the last path element, empty
  if there is none. The scan runs from the end of the path (\<open>/\<close> is the separator).
\<close>

fun Ext_scan :: "string \<Rightarrow> string \<Rightarrow> string" where
  "Ext_scan [] acc = []"
| "Ext_scan (c # cs) acc =
     (if c = CHR ''/'' then []
      else if c = CHR ''.'' then c # acc
      else Ext_scan cs (c # acc))"

definition Ext :: "string \<Rightarrow> string" where
  "Ext path = Ext_scan (rev path) []"

text \<open>
  \<open>strings.ToLower\<close> on ASCII letters. (No character outside ASCII has a lower-case
  form among the letters of the extensions compared below.)
\<close>

definition lower_char :: "char \<Rightarrow> char" where
  "lower_char c =
     (let n = (of_char c :: nat) in if 65 \<le> n \<and> n \<le> 90 then char_of (n + 32) else c)"

definition ToLower :: "string \<Rightarrow> string" where
  "ToLower s = map lower_char s"

text \<open>\<open>ExtractTextFromPDF\<close> (pdf.go).\<close>

definition ExtractTextFromPDF :: "env \<Rightarrow> world \<Rightarrow> string \<Rightarrow> (error + string) \<times> world" where
  "ExtractTextFromPDF E w path =
     (let w1 = record_event (PdfOpen path) w
      in case pdf_plain_text E (trace w) path of
           Inl err \<Rightarrow> (Inl err, w1)
         | Inr raw \<Rightarrow>
             (let txt = TrimSpace raw
              in if txt = []
                 then (let w2 = record_event (Pdftotext path) w1
                       in case pdftotext E (trace w1) path of
                            Inr out \<Rightarrow> (Inr out, w2)
                          | Inl err \<Rightarrow> (Inr txt, w2))
                 else (Inr txt, w1)))"

text \<open>\<open>runTesseract\<close> (ocr.go).\<close>

definition runTesseract :: "env \<Rightarrow> world \<Rightarrow> string \<Rightarrow> (error + string) \<times> world" where
  "runTesseract E w imgPath =
     (let w1 = record_event (Tesseract imgPath) w
      in case tesseract E (trace w) imgPath of
           Inl err \<Rightarrow> (Inl err, w1)
         | Inr txt \<Rightarrow> (Inr (TrimSpace txt), w1))"

text \<open>
  The page loop of \<open>ExtractTextWithOCR\<close>:
  \<^verbatim>\<open>
  for _, m := range matches {
      t, err := runTesseract(m)
      if err != nil { continue }
      combined.WriteString(t)
      combined.WriteString("\n")
  }
  \<close>
\<close>

fun ocr_pages :: "env \<Rightarrow> world \<Rightarrow> string list \<Rightarrow> string \<Rightarrow> string \<times> world" where
  "ocr_pages E w [] combined = (combined, w)"
| "ocr_pages E w (m # ms) combined =
     (case runTesseract E w m of
        (Inl err, w1) \<Rightarrow> ocr_pages E w1 ms combined
      | (Inr t, w1) \<Rightarrow> ocr_pages E w1 ms (combined @ t @ [CHR 0x0A]))"

text \<open>
  Byte-wise order of names, and the insertion of a written file into the sorted
  directory listing (a file of the same name is overwritten).
\<close>

fun name_less :: "string \<Rightarrow> string \<Rightarrow> bool" where
  "name_less [] [] = False"
| "name_less [] (y # ys) = True"
| "name_less (x # xs) [] = False"
| "name_less (x # xs) (y # ys) =
     ((of_char x :: nat) < of_char y \<or> (x = y \<and> name_less xs ys))"

fun write_file :: "string \<Rightarrow> string list \<Rightarrow> string list" where
  "write_file f [] = [f]"
| "write_file f (g # gs) =
     (if f = g then g # gs
      else if name_less f g then f # g # gs
      else g # write_file f gs)"

definition write_files :: "string list \<Rightarrow> string list \<Rightarrow> string list" where
  "write_files fs dir = fold write_file fs dir"

text \<open>\<open>ExtractTextWithOCR\<close> (ocr.go).\<close>

definition ExtractTextWithOCR :: "env \<Rightarrow> world \<Rightarrow> string \<Rightarrow> (error + string) \<times> world" where
  "ExtractTextWithOCR E w path =
     (if ToLower (Ext path) = ''.pdf''
      then (case pdftoppm E (trace w) path of
              (failure, written) \<Rightarrow>
                (let w1 = (record_event (Pdftoppm path) w)
                            \<lparr>tmp_pngs := write_files written (tmp_pngs w)\<rparr>
                 in case failure of
                      Some err \<Rightarrow> (Inl (PdftoppmConvertFailed err), w1)
                    | None \<Rightarrow>
                        (case glob_error E of
                           Some err \<Rightarrow> (Inl err, w1)
                         | None \<Rightarrow>
                             (case ocr_pages E w1 (tmp_pngs w1) [] of
                                (combined, w2) \<Rightarrow> (Inr (TrimSpace combined), w2)))))
      else runTesseract E w path)"

text \<open>\<open>ExtractText\<close> (extractor.go).\<close>

definition ExtractText :: "env \<Rightarrow> world \<Rightarrow> string \<Rightarrow> (error + string) \<times> world" where
  "ExtractText E w path =
     (let ext = ToLower (Ext path)
      in if ext = ''.txt'' \<or> ext = ''.md''
         then (case read_file E (trace w) path of
                 Inl err \<Rightarrow> (Inl err, record_event (ReadFile path) w)
               | Inr b \<Rightarrow> (Inr b, record_event (ReadFile path) w))
         else if ext = ''.pdf''
         then (case ExtractTextFromPDF E w path of
                 (Inr txt, w1) \<Rightarrow>
                   if TrimSpace txt \<noteq> [] then (Inr txt, w1) else ExtractTextWithOCR E w1 path
               | (Inl err, w1) \<Rightarrow> ExtractTextWithOCR E w1 path)
         else if ext = ''.png'' \<or> ext = ''.jpg'' \<or> ext = ''.jpeg''
         then ExtractTextWithOCR E w path
         else (Inl UnsupportedFileType, w))"

section \<open>Embedder (internal/processing)\<close>

definition EmbeddingDim :: nat where
  "EmbeddingDim = 768"

text \<open>
  \<open>getOllamaEmbedding\<close>: what the function returns for a reply of the backend
  (\<open>embed_result\<close>, at the history \<open>h\<close> of the call), and the call itself.
\<close>

definition embed_result :: "env \<Rightarrow> event list \<Rightarrow> string \<Rightarrow> error + float32 list" where
  "embed_result E h txt =
     (case embed_post E h txt of
        ConnError err \<Rightarrow> Inl (RequestFailed err)
      | HttpResponse status body \<Rightarrow>
          if status \<noteq> 200 then Inl (OllamaError body)
          else (case decode_embedding E body of
                  Inl err \<Rightarrow> Inl (FailedDecodeResponse err)
                | Inr emb \<Rightarrow>
                    if length emb \<noteq> EmbeddingDim
                    then Inl (ExpectedEmbeddingDim EmbeddingDim (length emb))
                    else Inr emb))"

definition getOllamaEmbedding :: "env \<Rightarrow> world \<Rightarrow> string \<Rightarrow> (error + float32 list) \<times> world" where
  "getOllamaEmbedding E w txt = (embed_result E (trace w) txt, record_event (EmbedPost txt) w)"

text \<open>
  The loop of \<open>EmbedChunks\<close>; \<open>out\<close> is the slice made with \<open>len(chunks)\<close> nil entries
  and \<open>i\<close> the index of the next chunk.
\<close>

fun EmbedChunks_loop ::
  "env \<Rightarrow> world \<Rightarrow> nat \<Rightarrow> string list \<Rightarrow> float32 list list \<Rightarrow> (error + float32 list list) \<times> world" where
  "EmbedChunks_loop E w i [] out = (Inr out, w)"
| "EmbedChunks_loop E w i (chunk # rest) out =
     (case getOllamaEmbedding E w chunk of
        (Inl err, w1) \<Rightarrow> (Inl (FailedEmbeddingChunk i err), w1)
      | (Inr emb, w1) \<Rightarrow> EmbedChunks_loop E w1 (Suc i) rest (out[i := emb]))"

definition EmbedChunks :: "env \<Rightarrow> world \<Rightarrow> string list \<Rightarrow> (error + float32 list list) \<times> world" where
  "EmbedChunks E w chunks =
     (if length chunks = 0 then (Inl NoChunks, w)
      else EmbedChunks_loop E w 0 chunks (replicate (length chunks) []))"

definition QueryEmbedding :: "env \<Rightarrow> world \<Rightarrow> string \<Rightarrow> (error + float32 list) \<times> world" where
  "QueryEmbedding E w query =
     (if query = [] then (Inl EmptyQuery, w) else getOllamaEmbedding E w query)"

section \<open>Ingestion loop (cmd/agent/main.go)\<close>

text \<open>\<open>storage.InsertEmbedding\<close>: one \<open>INSERT\<close>, returning the driver's error.\<close>

definition InsertEmbedding ::
  "env \<Rightarrow> world \<Rightarrow> string \<Rightarrow> string \<Rightarrow> string \<Rightarrow> float32 list \<Rightarrow> error option \<times> world" where
  "InsertEmbedding E w filename source content embedding =
     (db_insert E (trace w) filename source content embedding,
      record_event (DBInsert filename source content embedding) w)"

text \<open>
  \<^verbatim>\<open>
  for i := range chunks {
      if err := storage.InsertEmbedding(f, "local", chunks[i], embs[i]); err != nil {
          log.Println("db insert error:", err)
      }
  }
  \<close>
  An insert error is logged and the loop goes on. The lists are walked in step;
  \<open>embs[i]\<close> beyond the end of \<open>embs\<close> is the index panic \<open>None\<close>.
\<close>

fun insert_loop :: "env \<Rightarrow> world \<Rightarrow> string \<Rightarrow> string list \<Rightarrow> float32 list list \<Rightarrow> world option" where
  "insert_loop E w f [] embs = Some w"
| "insert_loop E w f (c # cs) [] = None"
| "insert_loop E w f (c # cs) (e # es) =
     insert_loop E (snd (InsertEmbedding E w f ''local'' c e)) f cs es"

text \<open>
  The body of the loop over the files: what happens to one file. \<open>SkipFile\<close> is the
  branch that logs "skip file" and continues, \<open>EmbedError\<close> the one that logs "embed
  error" and continues, \<open>Indexed\<close> the fall through after the inserts.
\<close>

datatype file_outcome = SkipFile error | EmbedError error | Indexed

definition index_file :: "env \<Rightarrow> world \<Rightarrow> string \<Rightarrow> (file_outcome \<times> world) option" where
  "index_file E w f =
     (case ExtractText E w f of
        (Inl err, w1) \<Rightarrow> Some (SkipFile err, w1)
      | (Inr txt, w1) \<Rightarrow>
          (case ChunkText txt of
             None \<Rightarrow> None
           | Some chunks \<Rightarrow>
               (case EmbedChunks E w1 chunks of
                  (Inl err, w2) \<Rightarrow> Some (EmbedError err, w2)
                | (Inr embs, w2) \<Rightarrow>
                    (case insert_loop E w2 f chunks embs of
                       None \<Rightarrow> None
                     | Some w3 \<Rightarrow> Some (Indexed, w3)))))"

section \<open>Workflow stages (internal/graph)\<close>

text \<open>
  \<open>State\<close> (workflow.go). \<open>DB\<close> is the search function of the \<open>DBWrapper\<close> the state
  points to.
\<close>

record State =
  Query :: string
  Docs :: "string list"
  Ans :: string
  DB :: "float32 list \<Rightarrow> nat \<Rightarrow> error + string list"

text \<open>The \<open>%d\<close> verb on a non-negative integer.\<close>

definition digit :: "nat \<Rightarrow> char" where
  "digit n = char_of (48 + n)"

function decimal :: "nat \<Rightarrow> string" where
  "decimal n = (if n < 10 then [digit n] else decimal (n div 10) @ [digit (n mod 10)])"
  by pat_completeness auto
termination
  by (relation "measure id") auto

declare decimal.simps [simp del]

text \<open>
  \<^verbatim>\<open>
  for i, d := range s.Docs {
      docText.WriteString(fmt.Sprintf("Document %d:\n%s\n\n", i+1, d))
  }
  \<close>
\<close>

fun docText_loop :: "nat \<Rightarrow> string list \<Rightarrow> string \<Rightarrow> string" where
  "docText_loop i [] docText = docText"
| "docText_loop i (d # ds) docText =
     docText_loop (Suc i) ds
       (docText @ ''Document '' @ decimal (i + 1) @ [CHR '':'', CHR 0x0A] @ d @ [CHR 0x0A, CHR 0x0A])"

definition summarize_prompt :: "env \<Rightarrow> State \<Rightarrow> string" where
  "summarize_prompt E s =
     ''The user asked: '' @ quote E (Query s) @ [CHR ''.'', CHR 0x0A, CHR 0x0A]
       @ ''Summarize the following documents in the context of this query:''
       @ [CHR 0x0A, CHR 0x0A] @ docText_loop 0 (Docs s) []"

text \<open>
  The read loop of \<open>SummarizerNode\<close>:
  \<^verbatim>\<open>
  for {
      var chunk ollamaResponse
      if err := decoder.Decode(&chunk); err == io.EOF {
          break
      } else if err != nil {
          return fmt.Errorf("decoding ollama response: %w", err)
      }
      summary.WriteString(chunk.Response)
      if chunk.Done { break }
  }
  \<close>
\<close>

fun read_stream :: "decode_event list \<Rightarrow> string \<Rightarrow> error + string" where
  "read_stream [] summary = Inr summary"
| "read_stream (DecodeError err # rest) summary = Inl (DecodingOllamaResponse err)"
| "read_stream (Fragment response done # rest) summary =
     (if done then Inr (summary @ response)
      else read_stream rest (summary @ response))"

text \<open>
  \<open>SummarizerNode\<close> (summarizer.go). The result is the returned error (\<open>None\<close> is
  \<open>nil\<close>), the state the pointer \<open>s\<close> refers to afterwards, and the world.
\<close>

definition SummarizerNode :: "env \<Rightarrow> world \<Rightarrow> State \<Rightarrow> (error option \<times> State) \<times> world" where
  "SummarizerNode E w s =
     (if length (Docs s) = 0
      then ((None, s\<lparr>Ans := ''No documents found matching the query.''\<rparr>), w)
      else (let prompt = summarize_prompt E s
            in case new_request_error E of
                 Some err \<Rightarrow> ((Some (CreatingOllamaRequest err), s), w)
               | None \<Rightarrow>
                   (let w1 = record_event (GeneratePost prompt) w
                    in case generate E (trace w) prompt of
                         DoFailed err \<Rightarrow> ((Some (CallingOllama err), s), w1)
                       | Body stream \<Rightarrow>
                           (case read_stream stream [] of
                              Inl err \<Rightarrow> ((Some err, s), w1)
                            | Inr summary \<Rightarrow> ((None, s\<lparr>Ans := summary\<rparr>), w1)))))"

text \<open>\<open>CriticNode\<close> (critic.go).\<close>

definition CriticNode :: "State \<Rightarrow> error option \<times> State" where
  "CriticNode s =
     (if length (Ans s) < 50
      then (None, s\<lparr>Ans := Ans s @ [CHR 0x0A, CHR 0x0A]
              @ ''(Note: result short; consider rephrasing your query or indexing more documents.)''\<rparr>)
      else (None, s))"

section \<open>Reading the trace\<close>

text \<open>The events that start the page conversion of the optical fallback.\<close>

fun is_Pdftoppm :: "event \<Rightarrow> bool" where
  "is_Pdftoppm (Pdftoppm p) = True"
| "is_Pdftoppm ev = False"

section \<open>Concrete environments\<close>

text \<open>
  A small world on which the theorems below are instantiated: every PDF has a text
  layer of blanks only and no \<open>pdftotext\<close>; \<open>pdftoppm\<close> writes two page images, of which
  the first cannot be read; the embedding backend answers the prompt \<open>bad\<close> with a
  three-component vector and every other prompt with a 768-component one; the generation
  backend streams three fragments, the second of which is flagged done.
\<close>

definition demo_env :: env where
  "demo_env =
     \<lparr> read_file = (\<lambda>h p. if p = ''blank.txt'' then Inr [CHR 0x20, CHR 0x0A, CHR 0x0A, CHR 0x20]
                           else Inr ''plain text''),
       pdf_plain_text = (\<lambda>h p. Inr [CHR 0x20, CHR 0x20]),
       pdftotext = (\<lambda>h p. Inl (LibError ''pdftotext: not found'')),
       pdftoppm = (\<lambda>h p. (None, [''/tmp/uda_pdfimg-1.png'', ''/tmp/uda_pdfimg-2.png''])),
       glob_error = None,
       tesseract = (\<lambda>h m. if m = ''/tmp/uda_pdfimg-1.png'' then Inl (LibError ''unreadable image'')
                           else Inr '' page two ''),
       embed_post = (\<lambda>h t. if t = ''bad'' then HttpResponse 200 ''short'' else HttpResponse 200 ''full''),
       decode_embedding = (\<lambda>b. if b = ''full'' then Inr (replicate 768 0) else Inr [0, 0, 0]),
       new_request_error = None,
       generate = (\<lambda>h p. Body [Fragment ''Hel'' False, Fragment ''lo'' True, Fragment ''!'' False]),
       quote = (\<lambda>q. q),
       db_insert = (\<lambda>h f s c v. None) \<rparr>"

text \<open>The same world with a scanned PDF whose pages are blank.\<close>

definition blank_env :: env where
  "blank_env = demo_env\<lparr>tesseract := (\<lambda>h m. Inr [CHR 0x20])\<rparr>"

text \<open>The same world where the page conversion fails.\<close>

definition failing_env :: env where
  "failing_env = demo_env\<lparr>pdftoppm := (\<lambda>h p. (Some (LibError ''exit status 1''), []))\<rparr>"

text \<open>
  A world with two scanned PDFs: \<open>a.pdf\<close> has two pages and \<open>b.pdf\<close> one. Converting
  \<open>b.pdf\<close> overwrites the first page image; recognition reads what an image holds at
  the time.
\<close>

definition stale_env :: env where
  "stale_env =
     demo_env
       \<lparr> pdftoppm := (\<lambda>h p. if p = ''a.pdf''
                             then (None, [''/tmp/uda_pdfimg-1.png'', ''/tmp/uda_pdfimg-2.png''])
                             else (None, [''/tmp/uda_pdfimg-1.png''])),
         tesseract := (\<lambda>h m. if m = ''/tmp/uda_pdfimg-2.png'' then Inr ''A page 2''
                              else if Pdftoppm ''b.pdf'' \<in> set h then Inr ''B page 1''
                              else Inr ''A page 1'') \<rparr>"

text \<open>The same world with a given generation stream.\<close>

definition stream_env :: "decode_event list \<Rightarrow> env" where
  "stream_env stream = demo_env\<lparr>generate := (\<lambda>h p. Body stream)\<rparr>"

definition world0 :: world where
  "world0 = \<lparr>tmp_pngs = [], trace = []\<rparr>"

definition demo_state :: State where
  "demo_state = \<lparr>Query = ''q'', Docs = [''doc one''], Ans = [], DB = (\<lambda>v k. Inr [])\<rparr>"

section \<open>Properties of the chunker\<close>

lemma strip_leading_Nil [simp]: "strip_leading encs [] = []"
proof -
  have "find (\<lambda>t. t \<noteq> [] \<and> take (length t) [] = t) encs = None"
    by (auto simp: find_None_iff)
  then show ?thesis by (subst strip_leading.simps) simp
qed

lemma strip_leading_length: "length (strip_leading encs s) \<le> length s"
proof (induction encs s rule: strip_leading.induct)
  case (1 encs s)
  show ?case
  proof (cases "find (\<lambda>t. t \<noteq> [] \<and> take (length t) s = t) encs")
    case None
    then show ?thesis by (subst strip_leading.simps) simp
  next
    case (Some t)
    from 1 [OF Some] have "length (strip_leading encs (drop (length t) s)) \<le> length s" by simp
    then show ?thesis using Some by (subst strip_leading.simps) simp
  qed
qed

lemma strip_leading_keep:
  assumes "\<forall>t\<in>set encs. t \<noteq> [] \<longrightarrow> hd t \<noteq> c"
  shows "strip_leading encs (c # cs) = c # cs"
proof -
  have "\<not> (t \<noteq> [] \<and> take (length t) (c # cs) = t)" if "t \<in> set encs" for t
  proof
    assume a: "t \<noteq> [] \<and> take (length t) (c # cs) = t"
    then obtain x xs where t: "t = x # xs" by (cases t) auto
    with a have "x = c" by simp
    with assms that t show False by auto
  qed
  then have "find (\<lambda>t. t \<noteq> [] \<and> take (length t) (c # cs) = t) encs = None"
    by (simp add: find_None_iff)
  then show ?thesis by (subst strip_leading.simps) simp
qed

lemma strip_leading_all:
  assumes "\<forall>c\<in>set s. [c] \<in> set encs"
  shows "strip_leading encs s = []"
  using assms
proof (induction encs s rule: strip_leading.induct)
  case (1 encs s)
  show ?case
  proof (cases s)
    case Nil
    then show ?thesis by simp
  next
    case (Cons c cs)
    then have "[c] \<in> set encs" using 1(2) by simp
    moreover have "[c] \<noteq> [] \<and> take (length [c]) s = [c]" using Cons by simp
    ultimately have "find (\<lambda>t. t \<noteq> [] \<and> take (length t) s = t) encs \<noteq> None"
      by (auto simp: find_None_iff)
    then obtain t where t: "find (\<lambda>t. t \<noteq> [] \<and> take (length t) s = t) encs = Some t" by auto
    have "set (drop (length t) s) \<subseteq> set s" by (rule set_drop_subset)
    then have "\<forall>c\<in>set (drop (length t) s). [c] \<in> set encs" using 1(2) by auto
    from 1(1) [OF t this] show ?thesis using t by (subst strip_leading.simps) simp
  qed
qed

lemma asciiSpace_encoding:
  "asciiSpace c \<Longrightarrow> [c] \<in> set space_encodings \<and> [c] \<in> set (map rev space_encodings)"
  by (auto simp: asciiSpace_def space_encodings_def)

lemma TrimSpace_Nil [simp]: "TrimSpace [] = []"
  by (simp add: TrimSpace_def)

lemma TrimSpace_all_space:
  assumes "\<forall>c\<in>set s. asciiSpace c" shows "TrimSpace s = []"
proof -
  have "strip_leading space_encodings s = []"
    using assms by (intro strip_leading_all) (simp add: asciiSpace_encoding)
  then show ?thesis by (simp add: TrimSpace_def)
qed

lemma TrimSpace_length: "length (TrimSpace s) \<le> length s"
proof -
  have "length (TrimSpace s) \<le> length (strip_leading space_encodings s)"
    unfolding TrimSpace_def
    using strip_leading_length [of "map rev space_encodings" "rev (strip_leading space_encodings s)"]
    by simp
  also have "\<dots> \<le> length s" by (rule strip_leading_length)
  finally show ?thesis .
qed

lemma strip_leading_spaces:
  "strip_leading space_encodings (replicate n CHR 0x20 @ s) = strip_leading space_encodings s"
  "strip_leading (map rev space_encodings) (replicate n CHR 0x20 @ s)
     = strip_leading (map rev space_encodings) s"
proof -
  have a: "strip_leading space_encodings (CHR 0x20 # cs) = strip_leading space_encodings cs" for cs
    by (subst strip_leading.simps) (simp add: space_encodings_def)
  have b: "strip_leading (map rev space_encodings) (CHR 0x20 # cs)
             = strip_leading (map rev space_encodings) cs" for cs
    by (subst strip_leading.simps) (simp add: space_encodings_def)
  show "strip_leading space_encodings (replicate n CHR 0x20 @ s) = strip_leading space_encodings s"
    by (induction n) (simp_all add: a)
  show "strip_leading (map rev space_encodings) (replicate n CHR 0x20 @ s)
     = strip_leading (map rev space_encodings) s"
    by (induction n) (simp_all add: b)
qed

lemma strip_leading_letter:
  assumes "c = CHR ''a'' \<or> c = CHR ''b''"
  shows "strip_leading space_encodings (c # cs) = c # cs"
    and "strip_leading (map rev space_encodings) (c # cs) = c # cs"
  using assms by (auto intro!: strip_leading_keep simp: space_encodings_def)

lemma TrimSpace_framed:
  assumes "c = CHR ''a'' \<or> c = CHR ''b''" and "d = CHR ''a'' \<or> d = CHR ''b''"
  shows "TrimSpace (c # xs @ [d]) = c # xs @ [d]"
  by (simp add: TrimSpace_def strip_leading_letter [OF assms(1)] strip_leading_letter [OF assms(2)])

lemma TrimSpace_spaces_right:
  assumes "c = CHR ''a'' \<or> c = CHR ''b''"
  shows "TrimSpace (c # replicate n CHR 0x20) = [c]"
  using strip_leading_spaces(2) [of n "[c]"]
  by (simp add: TrimSpace_def strip_leading_letter [OF assms])

lemma TrimSpace_spaces_left:
  assumes "c = CHR ''a'' \<or> c = CHR ''b''"
  shows "TrimSpace (replicate n CHR 0x20 @ [c]) = [c]"
  using strip_leading_spaces(1) [of n "[c]"]
  by (simp add: TrimSpace_def strip_leading_letter [OF assms])

lemmas TrimSpace_eval = TrimSpace_def strip_leading.simps space_encodings_def

lemma re_Split_no_nl: "CHR 0x0A \<notin> set s \<Longrightarrow> re_Split cur s = [cur @ s]"
  by (induction cur s rule: re_Split.induct) auto

lemma ceil_step:
  fixes d st :: nat
  assumes "0 < st" "1 \<le> d"
  shows "(d + st - 1) div st = Suc ((d - st + st - 1) div st)"
proof -
  obtain k where k: "d = Suc k" using assms by (cases d) simp_all
  have "(d - st + st - 1) div st = k div st"
  proof (cases "st \<le> d")
    case True
    then show ?thesis using k by simp
  next
    case False
    then have "d - st + st - 1 = st - 1" "k < st - 1" using k by simp_all
    then show ?thesis by simp
  qed
  then show ?thesis using k assms by (simp add: div_add_self2)
qed

lemma splitLong_loop_result:
  assumes "overlap < mx" "i < length s" "st = mx - overlap"
  shows "\<exists>ws. splitLong_loop s mx overlap i res = Some (res @ ws)
      \<and> length ws = (length s - i - mx + st - 1) div st + 1
      \<and> (\<forall>j<length ws. ws ! j = TrimSpace (substr s (i + j * st) (min (i + j * st + mx) (length s)))
             \<and> i + j * st < length s
             \<and> (j + 1 < length ws \<longrightarrow> i + j * st + mx < length s))
      \<and> length s \<le> i + (length ws - 1) * st + mx"
  using assms
proof (induction s mx overlap i res rule: splitLong_loop.induct)
  case (1 s mx overlap i res)
  have st: "0 < st" using 1 by simp
  show ?case
  proof (cases "i + mx \<ge> length s")
    case True
    then have "splitLong_loop s mx overlap i res = Some (res @ [TrimSpace (substr s i (length s))])"
      using 1(2,3) by (subst splitLong_loop.simps) (auto simp: Let_def)
    moreover have "(length s - i - mx + st - 1) div st + 1 = 1" using True st by simp
    ultimately show ?thesis using True 1(3) by (simp add: min_def)
  next
    case False
    then have lt: "i + mx < length s" by simp
    let ?w = "TrimSpace (substr s i (i + mx))"
    have step: "splitLong_loop s mx overlap i res = splitLong_loop s mx overlap (i + st) (res @ [?w])"
      using 1(2,3,4) lt by (subst splitLong_loop.simps) (auto simp: Let_def)
    have i': "i + st < length s" using lt 1(2,4) by simp
    have "\<exists>ws. splitLong_loop s mx overlap (i + st) (res @ [?w]) = Some ((res @ [?w]) @ ws)
      \<and> length ws = (length s - (i + st) - mx + st - 1) div st + 1
      \<and> (\<forall>j<length ws. ws ! j = TrimSpace (substr s (i + st + j * st) (min (i + st + j * st + mx) (length s)))
             \<and> i + st + j * st < length s
             \<and> (j + 1 < length ws \<longrightarrow> i + st + j * st + mx < length s))
      \<and> length s \<le> i + st + (length ws - 1) * st + mx"
      using 1(1)[of "i + mx" "res @ [?w]"] 1(2,3,4) lt i' by simp
    then obtain ws where ws: "splitLong_loop s mx overlap (i + st) (res @ [?w]) = Some ((res @ [?w]) @ ws)"
      "length ws = (length s - (i + st) - mx + st - 1) div st + 1"
      "\<And>j. j < length ws \<Longrightarrow> ws ! j = TrimSpace (substr s (i + st + j * st) (min (i + st + j * st + mx) (length s)))"
      "\<And>j. j < length ws \<Longrightarrow> i + st + j * st < length s"
      "\<And>j. j < length ws \<Longrightarrow> j + 1 < length ws \<Longrightarrow> i + st + j * st + mx < length s"
      "length s \<le> i + st + (length ws - 1) * st + mx"
      by blast
    have "length s - (i + st) - mx = (length s - i - mx) - st" by simp
    with ws(2) have cnt: "(length s - i - mx + st - 1) div st + 1 = Suc (length ws)"
      using ceil_step [of st "length s - i - mx"] st lt by simp
    have pos: "0 < length ws" using ws(2) by simp
    show ?thesis
    proof (intro exI[of _ "?w # ws"] conjI allI impI)
      show "splitLong_loop s mx overlap i res = Some (res @ ?w # ws)" using step ws(1) by simp
      show "length (?w # ws) = (length s - i - mx + st - 1) div st + 1" using cnt by simp
      have "(length ws - 1) * st + st = length ws * st"
        using pos by (cases "length ws") simp_all
      then show "length s \<le> i + (length (?w # ws) - 1) * st + mx"
        using ws(6) by simp
    next
      fix j assume j: "j < length (?w # ws)"
      show "(?w # ws) ! j = TrimSpace (substr s (i + j * st) (min (i + j * st + mx) (length s)))"
      proof (cases j)
        case 0
        then show ?thesis using lt by (simp add: min_def)
      next
        case (Suc k)
        then have "k < length ws" using j by simp
        from ws(3)[OF this] show ?thesis using Suc by (simp add: add.assoc add.commute)
      qed
      show "i + j * st < length s"
      proof (cases j)
        case 0
        then show ?thesis using 1(3) by simp
      next
        case (Suc k)
        then have "k < length ws" using j by simp
        from ws(4)[OF this] show ?thesis using Suc by (simp add: add.assoc add.commute)
      qed
    next
      fix j assume j: "j < length (?w # ws)" "j + 1 < length (?w # ws)"
      show "i + j * st + mx < length s"
      proof (cases j)
        case 0
        then show ?thesis using lt by simp
      next
        case (Suc k)
        then have "k < length ws" "k + 1 < length ws" using j by simp_all
        from ws(5)[OF this] show ?thesis using Suc by (simp add: add.assoc add.commute)
      qed
    qed
  qed
qed

lemma substr_window:
  assumes "a < length s"
  shows "substr s a (min (a + mx) (length s)) = take mx (drop a s)"
proof (cases "a + mx \<le> length s")
  case True
  then show ?thesis by (simp add: substr_def min_absorb1)
next
  case False
  then have "min (a + mx) (length s) = length s" by simp
  moreover have "length (drop a s) \<le> mx" using False by simp
  ultimately show ?thesis by (simp add: substr_def)
qed

lemma window_overlap:
  assumes "overlap < mx" and "st = mx - overlap"
  shows "drop st (take mx (drop a s)) = take overlap (take mx (drop (a + st) s))"
proof -
  have "drop st (take mx (drop a s)) = take (mx - st) (drop (a + st) s)"
    by (simp add: drop_take add.commute)
  also have "mx - st = overlap" using assms by simp
  finally show ?thesis using assms(1) by (simp add: min_absorb1)
qed

lemma splitLong_total:
  assumes "overlap < mx"
  shows "\<exists>ws. splitLong s mx overlap = Some ws"
proof (cases "length s \<le> mx")
  case True
  then show ?thesis by (simp add: splitLong_def)
next
  case False
  then have "0 < length s" by (cases s) simp_all
  from splitLong_loop_result [OF assms this refl, of "[]"] False
  show ?thesis by (auto simp: splitLong_def)
qed

lemma length_concat_pairs: "length (concat (replicate n [a, b])) = 2 * n"
  by (induction n) simp_all

lemma utf8_characters_e_acute:
  "utf8_characters (concat (replicate n [CHR 0xC3, CHR 0xA9])) = n"
  by (induction n) (simp_all add: utf8_characters_def)

lemma TrimSpace_plain:
  assumes "s \<noteq> []"
    and "\<forall>t\<in>set space_encodings. hd t \<noteq> hd s \<and> last t \<noteq> last s"
  shows "TrimSpace s = s"
proof -
  obtain c cs where s: "s = c # cs" using assms(1) by (cases s) auto
  have ne: "\<forall>t\<in>set space_encodings. t \<noteq> []" by (simp add: space_encodings_def)
  have "strip_leading space_encodings (c # cs) = c # cs"
    using assms(2) s by (intro strip_leading_keep) auto
  then have l: "strip_leading space_encodings s = s" using s by simp
  have r: "rev s = last s # rev (butlast s)"
    using assms(1) by (metis append_butlast_last_id rev.simps(2) rev_rev_ident rev_swap singleton_rev_conv append_Cons append_Nil)
  have "strip_leading (map rev space_encodings) (last s # rev (butlast s)) = last s # rev (butlast s)"
  proof (intro strip_leading_keep ballI impI)
    fix t assume "t \<in> set (map rev space_encodings)" "t \<noteq> []"
    then obtain u where u: "u \<in> set space_encodings" "t = rev u" by auto
    then have "u \<noteq> []" using ne by blast
    then have "hd t = last u" using u(2) by (simp add: hd_rev)
    then show "hd t \<noteq> last s" using assms(2) u(1) by auto
  qed
  then show ?thesis by (simp add: TrimSpace_def l r [symmetric])
qed

lemma TrimSpace_leading_spaces: "TrimSpace (replicate n CHR 0x20 @ s) = TrimSpace s"
  by (simp add: TrimSpace_def strip_leading_spaces(1))

text \<open>
  C3, as the claim states it, fails. (1) The windows \<open>splitLong\<close> returns are trimmed.
  For the paragraph of 800 letters \<open>x\<close>, one space and 1000 letters \<open>x\<close> (1801
  bytes) the three windows returned have 1000, 999 and 201 bytes: the second slice begins
  with the space, which is trimmed off, so the last 200 bytes of the first window (a
  space and 199 letters) are not the first 200 bytes of the second (200 letters); the two
  windows share 199 bytes and the second no longer starts 800 bytes after the first.
  (2) Lengths are counted in bytes, not characters. The paragraph of 1100 letters e with
  acute accent (U+00E9, two bytes each) has 1100 characters, for which the claim's formula gives
  \<open>\<lceil>(1100 - 1000) / 800\<rceil> + 1 = 2\<close> windows; it has 2200 bytes and \<open>splitLong\<close> returns
  3 windows.
\<close>

theorem splitLong_trimmed_windows:
  "splitLong (replicate 800 CHR ''x'' @ CHR 0x20 # replicate 1000 CHR ''x'') 1000 200
     = Some [replicate 800 CHR ''x'' @ CHR 0x20 # replicate 199 CHR ''x'',
             replicate 999 CHR ''x'',
             replicate 201 CHR ''x'']
   \<and> drop 800 (replicate 800 CHR ''x'' @ CHR 0x20 # replicate 199 CHR ''x'')
       = CHR 0x20 # replicate 199 CHR ''x''
   \<and> take 200 (replicate 999 CHR ''x'') = replicate 200 CHR ''x''
   \<and> utf8_characters (concat (replicate 1100 [CHR 0xC3, CHR 0xA9])) = 1100
   \<and> (1100 - 1000 + 799) div 800 + 1 = (2::nat)
   \<and> map_option length (splitLong (concat (replicate 1100 [CHR 0xC3, CHR 0xA9])) 1000 200)
       = Some 3"
proof -
  let ?s = "replicate 800 CHR ''x'' @ CHR 0x20 # replicate 1000 CHR ''x''"
  let ?w0 = "replicate 800 CHR ''x'' @ CHR 0x20 # replicate 199 CHR ''x''"
  have s0: "substr ?s 0 1000 = ?w0" by (simp add: substr_def)
  have s1: "substr ?s 800 1800 = replicate 1 CHR 0x20 @ replicate 999 CHR ''x''"
    by (simp add: substr_def)
  have s2: "substr ?s 1600 1801 = replicate 201 CHR ''x''" by (simp add: substr_def)
  have x: "\<forall>t\<in>set space_encodings. hd t \<noteq> CHR ''x'' \<and> last t \<noteq> CHR ''x''"
    by (simp add: space_encodings_def)
  have w0: "TrimSpace (substr ?s 0 1000) = ?w0"
    unfolding s0 using x by (intro TrimSpace_plain) (simp_all add: hd_append)
  have "TrimSpace (replicate 999 CHR ''x'') = replicate 999 CHR ''x''"
    using x by (intro TrimSpace_plain) simp_all
  then have w1: "TrimSpace (substr ?s 800 1800) = replicate 999 CHR ''x''"
    unfolding s1 by (simp only: TrimSpace_leading_spaces)
  have w2: "TrimSpace (substr ?s 1600 1801) = replicate 201 CHR ''x''"
    unfolding s2 using x by (intro TrimSpace_plain) simp_all
  have "splitLong_loop ?s 1000 200 1600 [?w0, replicate 999 CHR ''x'']
          = Some [?w0, replicate 999 CHR ''x'', replicate 201 CHR ''x'']"
    by (subst splitLong_loop.simps) (simp add: w2 Let_def)
  then have "splitLong_loop ?s 1000 200 800 [?w0]
          = Some [?w0, replicate 999 CHR ''x'', replicate 201 CHR ''x'']"
    by (subst splitLong_loop.simps) (simp add: w1 Let_def)
  then have "splitLong_loop ?s 1000 200 0 []
          = Some [?w0, replicate 999 CHR ''x'', replicate 201 CHR ''x'']"
    by (subst splitLong_loop.simps) (simp add: w0 Let_def)
  then have a: "splitLong ?s 1000 200
          = Some [?w0, replicate 999 CHR ''x'', replicate 201 CHR ''x'']"
    by (simp add: splitLong_def)
  let ?p = "concat (replicate 1100 [CHR 0xC3, CHR 0xA9])"
  have lp: "length ?p = 2200" by (simp add: length_concat_pairs)
  have "0 < length ?p" using lp by simp
  from splitLong_loop_result [OF _ this refl, of 200 1000 "[]"] lp
  have b: "map_option length (splitLong ?p 1000 200) = Some 3"
    by (auto simp: splitLong_def)
  show ?thesis using a b by (simp add: utf8_characters_e_acute)
qed

text \<open>
  C3, amended. Re-splitting a long paragraph, with lengths in bytes. For a paragraph
  \<open>s\<close> of \<open>L\<close> bytes, \<open>L\<close> greater than \<open>max\<close>, with \<open>overlap < max\<close> (\<open>ChunkText\<close>
  passes \<open>max = 1000\<close> and \<open>overlap = 200\<close>), \<open>splitLong\<close> returns
  \<open>\<lceil>(L - max) / (max - overlap)\<rceil> + 1\<close> windows, at least two. Window \<open>j\<close> is the
  slice of \<open>s\<close> that starts at byte \<open>j * (max - overlap)\<close>, inside the string, and
  covers \<open>max\<close> bytes or runs to the end of the string, with the white space around it
  trimmed off; each window has at most \<open>max\<close> bytes. Before trimming, every slice but
  the last has exactly \<open>max\<close> bytes and shares exactly \<open>overlap\<close> bytes with the next
  slice: its last \<open>overlap\<close> bytes are the first \<open>overlap\<close> bytes of the next. The
  returned windows share these bytes whenever trimming changes neither of the two
  slices. The last slice runs to the end of the string.
\<close>

theorem splitLong_windows:
  assumes "overlap < mx" and "mx < length s"
  shows "\<exists>ws. splitLong s mx overlap = Some ws
      \<and> length ws = (length s - mx + (mx - overlap) - 1) div (mx - overlap) + 1
      \<and> 2 \<le> length ws
      \<and> (\<forall>j<length ws.
             ws ! j = TrimSpace (take mx (drop (j * (mx - overlap)) s))
           \<and> j * (mx - overlap) < length s
           \<and> length (ws ! j) \<le> mx
           \<and> (j + 1 < length ws \<longrightarrow>
                 length (take mx (drop (j * (mx - overlap)) s)) = mx
               \<and> drop (mx - overlap) (take mx (drop (j * (mx - overlap)) s))
                   = take overlap (take mx (drop ((j + 1) * (mx - overlap)) s))
               \<and> length (drop (mx - overlap) (take mx (drop (j * (mx - overlap)) s))) = overlap
               \<and> (ws ! j = take mx (drop (j * (mx - overlap)) s)
                    \<and> ws ! (j + 1) = take mx (drop ((j + 1) * (mx - overlap)) s)
                   \<longrightarrow> drop (mx - overlap) (ws ! j) = take overlap (ws ! (j + 1)))))
      \<and> take mx (drop ((length ws - 1) * (mx - overlap)) s)
          = drop ((length ws - 1) * (mx - overlap)) s"
proof -
  define st where "st = mx - overlap"
  have pos: "0 < length s" using assms by (cases s) simp_all
  from splitLong_loop_result [OF assms(1) pos st_def, of "[]"]
  obtain ws where ws: "splitLong_loop s mx overlap 0 [] = Some ws"
      "length ws = (length s - mx + st - 1) div st + 1"
      "\<And>j. j < length ws \<Longrightarrow> ws ! j = TrimSpace (substr s (j * st) (min (j * st + mx) (length s)))"
      "\<And>j. j < length ws \<Longrightarrow> j * st < length s"
      "\<And>j. j < length ws \<Longrightarrow> j + 1 < length ws \<Longrightarrow> j * st + mx < length s"
      "length s \<le> (length ws - 1) * st + mx"
    by auto
  have win: "ws ! j = TrimSpace (take mx (drop (j * st) s))" if "j < length ws" for j
    using ws(3) [OF that] substr_window [OF ws(4) [OF that]] by simp
  have len: "length (ws ! j) \<le> mx" if "j < length ws" for j
  proof -
    have "length (ws ! j) \<le> length (take mx (drop (j * st) s))"
      unfolding win [OF that] by (rule TrimSpace_length)
    also have "\<dots> \<le> mx" by simp
    finally show ?thesis .
  qed
  have full: "length (take mx (drop (j * st) s)) = mx"
    if "j < length ws" "j + 1 < length ws" for j
    using ws(5) [OF that] by simp
  have sh: "drop st (take mx (drop (j * st) s)) = take overlap (take mx (drop ((j + 1) * st) s))"
    for j
    using window_overlap [OF assms(1) st_def, of "j * st" s] by (simp add: ac_simps)
  have shl: "length (drop st (take mx (drop (j * st) s))) = overlap"
    if "j < length ws" "j + 1 < length ws" for j
    using full [OF that] assms(1) by (simp add: st_def)
  have shw: "drop st (ws ! j) = take overlap (ws ! (j + 1))"
    if "ws ! j = take mx (drop (j * st) s) \<and> ws ! (j + 1) = take mx (drop ((j + 1) * st) s)" for j
    using that sh [of j] by simp
  have "0 < st" using assms(1) by (simp add: st_def)
  moreover have "st \<le> length s - mx + st - 1" using assms(2) by simp
  ultimately have "0 < (length s - mx + st - 1) div st" by (simp add: div_greater_zero_iff)
  then have two: "2 \<le> length ws" using ws(2) by simp
  have fin: "take mx (drop ((length ws - 1) * st) s) = drop ((length ws - 1) * st) s"
    using ws(6) by simp
  have "splitLong s mx overlap = Some ws" using ws(1) assms(2) by (simp add: splitLong_def)
  then show ?thesis
    using ws(2,4) win len full sh shl shw two fin unfolding st_def [symmetric] by blast
qed

theorem splitLong_windows_witness:
  "(200::nat) < 1000 \<and> 1000 < length (replicate 1801 CHR ''x'') \<and>
   (\<exists>ws. splitLong (replicate 1801 CHR ''x'') 1000 200 = Some ws \<and> length ws = 3
      \<and> ws ! 1 = TrimSpace (take 1000 (drop 800 (replicate 1801 CHR ''x''))))"
proof -
  let ?s = "replicate 1801 CHR ''x''"
  have h1: "(200::nat) < 1000" by simp
  have h2: "1000 < length ?s" by simp
  from splitLong_windows [OF h1 h2] obtain ws where
    ws: "splitLong ?s 1000 200 = Some ws"
      "length ws = (length ?s - 1000 + (1000 - 200) - 1) div (1000 - 200) + 1"
      "\<forall>j<length ws. ws ! j = TrimSpace (take 1000 (drop (j * (1000 - 200)) ?s))"
    by blast
  have n: "length ws = 3" using ws(2) by simp
  have "1 < length ws" using n by simp
  with ws(3) have "ws ! 1 = TrimSpace (take 1000 (drop (1 * (1000 - 200)) ?s))" by blast
  then have "ws ! 1 = TrimSpace (take 1000 (drop 800 ?s))" by simp
  with ws(1) n h1 h2 show ?thesis by blast
qed

lemma splitLong_short: "length s \<le> mx \<Longrightarrow> splitLong s mx overlap = Some [s]"
  by (simp add: splitLong_def)

lemma re_Split_set: "set (concat (re_Split cur s)) \<subseteq> set cur \<union> set s"
proof (induction cur s rule: re_Split.induct)
  case (3 cur c d cs)
  have "set (dropWhile (\<lambda>x. x = CHR 0x0A) cs) \<subseteq> set cs"
    using set_dropWhileD by fastforce
  with 3 show ?case by (auto split: if_splits)
qed simp_all

lemma ChunkText_loop_blank:
  "\<forall>p\<in>set paras. \<forall>c\<in>set p. asciiSpace c \<Longrightarrow> ChunkText_loop paras out = Some out"
  by (induction paras) (simp_all add: TrimSpace_all_space)

lemma ChunkText_blank:
  assumes a: "\<forall>c\<in>set doc. asciiSpace c" shows "ChunkText doc = Some []"
proof -
  have "\<forall>p\<in>set (re_Split [] doc). \<forall>c\<in>set p. asciiSpace c"
    using re_Split_set [of "[]" doc] a by auto
  then show ?thesis unfolding ChunkText_def by (rule ChunkText_loop_blank)
qed

lemma ChunkText_loop_total: "\<exists>cs. ChunkText_loop paras out = Some cs"
proof (induction paras arbitrary: out)
  case Nil
  then show ?case by simp
next
  case (Cons p paras)
  obtain ws where "splitLong (TrimSpace p) 1000 200 = Some ws"
    using splitLong_total [of 200 1000 "TrimSpace p"] by auto
  then show ?case using Cons [of out] Cons [of "out @ ws"] by (simp add: Let_def)
qed

lemma ChunkText_total: "\<exists>cs. ChunkText doc = Some cs"
  unfolding ChunkText_def by (rule ChunkText_loop_total)

text \<open>
  C1. Every chunk returned by \<open>ChunkText\<close> should be non-empty and not made of white
  space only. \<open>ChunkText\<close> drops a paragraph that is empty after trimming, but
  \<open>splitLong\<close> appends each trimmed window without that test. The paragraph made of
  the letter \<open>a\<close>, 1799 spaces and the letter \<open>b\<close> has 1801 bytes; its second window,
  the bytes \<open>[800, 1800)\<close>, holds spaces only, and \<open>ChunkText\<close> returns the empty string
  as the second of three chunks.
\<close>

theorem ChunkText_returns_empty_chunk:
  "ChunkText (CHR ''a'' # replicate 1799 CHR '' '' @ ''b'') = Some [''a'', '''', ''b'']"
proof -
  let ?s = "CHR ''a'' # replicate 1799 CHR '' '' @ ''b''"
  have split: "re_Split [] ?s = [?s]"
    using re_Split_no_nl [of ?s "[]"] by simp
  have trim: "TrimSpace ?s = ?s"
    using TrimSpace_framed [of "CHR ''a''" "CHR ''b''" "replicate 1799 CHR '' ''"]
    by simp
  have s0: "substr ?s 0 1000 = CHR ''a'' # replicate 999 CHR '' ''"
    by (simp add: substr_def)
  have s1: "substr ?s 800 1800 = replicate 1000 CHR '' ''"
    by (simp add: substr_def)
  have s2: "substr ?s 1600 1801 = replicate 200 CHR '' '' @ ''b''"
    by (simp add: substr_def)
  have w0: "TrimSpace (substr ?s 0 1000) = ''a''"
    unfolding s0 by (rule TrimSpace_spaces_right) simp
  have w1: "TrimSpace (substr ?s 800 1800) = ''''"
    unfolding s1 by (rule TrimSpace_all_space) (simp add: asciiSpace_def)
  have w2: "TrimSpace (substr ?s 1600 1801) = ''b''"
    unfolding s2 by (rule TrimSpace_spaces_left) simp
  have l: "length ?s = 1801" by simp
  have "splitLong_loop ?s 1000 200 1600 [''a'', ''''] = Some [''a'', '''', ''b'']"
    by (subst splitLong_loop.simps) (simp add: w2 Let_def)
  then have "splitLong_loop ?s 1000 200 800 [''a''] = Some [''a'', '''', ''b'']"
    by (subst splitLong_loop.simps) (simp add: w1 Let_def)
  then have "splitLong_loop ?s 1000 200 0 [] = Some [''a'', '''', ''b'']"
    by (subst splitLong_loop.simps) (simp add: w0 Let_def)
  then have "splitLong ?s 1000 200 = Some [''a'', '''', ''b'']"
    by (simp only: splitLong_def l, simp)
  then show ?thesis
    unfolding ChunkText_def split by (simp only: ChunkText_loop.simps trim Let_def, simp)
qed

section \<open>Properties of the embedder\<close>

lemma trace_record_event [simp]: "trace (record_event ev w) = trace w @ [ev]"
  by (simp add: record_event_def)

lemma tmp_pngs_record_event [simp]: "tmp_pngs (record_event ev w) = tmp_pngs w"
  by (simp add: record_event_def)

lemma record_event_trace_update:
  "(record_event ev w)\<lparr>trace := trace (record_event ev w) @ evs\<rparr> = w\<lparr>trace := trace w @ ev # evs\<rparr>"
  by (simp add: record_event_def)

lemma EmbedChunks_loop_ok:
  assumes "length out = i + length cs" and "length vs = length cs"
    and "\<forall>j<length cs. embed_result E (trace w @ map EmbedPost (take j cs)) (cs ! j) = Inr (vs ! j)"
  shows "EmbedChunks_loop E w i cs out
           = (Inr (take i out @ vs), w\<lparr>trace := trace w @ map EmbedPost cs\<rparr>)"
  using assms
proof (induction cs arbitrary: w i out vs)
  case Nil
  then show ?case by simp
next
  case (Cons c cs)
  then obtain v vs' where vs: "vs = v # vs'" by (cases vs) simp_all
  have first: "embed_result E (trace w) c = Inr v"
    using Cons.prems(3) vs by (auto dest: spec [of _ 0])
  have rest: "\<forall>j<length cs. embed_result E (trace (record_event (EmbedPost c) w) @ map EmbedPost (take j cs)) (cs ! j)
                 = Inr (vs' ! j)"
  proof (intro allI impI)
    fix j assume "j < length cs"
    then have "Suc j < length (c # cs)" by simp
    with Cons.prems(3) have "embed_result E (trace w @ map EmbedPost (take (Suc j) (c # cs))) ((c # cs) ! Suc j) = Inr (vs ! Suc j)"
      by blast
    then show "embed_result E (trace (record_event (EmbedPost c) w) @ map EmbedPost (take j cs)) (cs ! j) = Inr (vs' ! j)"
      using vs by simp
  qed
  have len: "length (out[i := v]) = Suc i + length cs" using Cons.prems(1) by simp
  have len': "length vs' = length cs" using Cons.prems(2) vs by simp
  have i: "i < length out" using Cons.prems(1) by simp
  have tk: "take (Suc i) (out[i := v]) = take i out @ [v]"
    using i by (simp add: take_Suc_conv_app_nth)
  show ?case
    using Cons.IH [OF len len' rest] first vs tk
    by (simp add: getOllamaEmbedding_def record_event_trace_update)
qed

lemma EmbedChunks_loop_fail:
  assumes "k < length cs"
    and "\<forall>j<k. \<exists>v. embed_result E (trace w @ map EmbedPost (take j cs)) (cs ! j) = Inr v"
    and "embed_result E (trace w @ map EmbedPost (take k cs)) (cs ! k) = Inl err"
  shows "EmbedChunks_loop E w i cs out
           = (Inl (FailedEmbeddingChunk (i + k) err),
              w\<lparr>trace := trace w @ map EmbedPost (take (Suc k) cs)\<rparr>)"
  using assms
proof (induction cs arbitrary: w i out k)
  case Nil
  then show ?case by simp
next
  case (Cons c cs)
  show ?case
  proof (cases k)
    case 0
    then have "embed_result E (trace w) c = Inl err" using Cons.prems(3) by simp
    then show ?thesis using 0 by (simp add: getOllamaEmbedding_def record_event_def)
  next
    case (Suc k')
    then have k': "k' < length cs" using Cons.prems(1) by simp
    obtain v where first: "embed_result E (trace w) c = Inr v"
      using Cons.prems(2) Suc by (auto dest: spec [of _ 0])
    let ?w1 = "record_event (EmbedPost c) w"
    have before: "\<forall>j<k'. \<exists>v. embed_result E (trace ?w1 @ map EmbedPost (take j cs)) (cs ! j) = Inr v"
    proof (intro allI impI)
      fix j assume "j < k'"
      then have "Suc j < k" using Suc by simp
      with Cons.prems(2) obtain u where
        "embed_result E (trace w @ map EmbedPost (take (Suc j) (c # cs))) ((c # cs) ! Suc j) = Inr u"
        by blast
      then show "\<exists>v. embed_result E (trace ?w1 @ map EmbedPost (take j cs)) (cs ! j) = Inr v"
        by simp
    qed
    have at: "embed_result E (trace ?w1 @ map EmbedPost (take k' cs)) (cs ! k') = Inl err"
      using Cons.prems(3) Suc by simp
    show ?thesis
      using Cons.IH [OF k' before at, of "Suc i" "out[i := v]"] first Suc
      by (simp add: getOllamaEmbedding_def record_event_trace_update)
  qed
qed

lemma embed_result_Inr:
  assumes "embed_result E h t = Inr v"
  shows "length v = EmbeddingDim
       \<and> (\<exists>body. embed_post E h t = HttpResponse 200 body \<and> decode_embedding E body = Inr v)"
  using assms
  by (auto simp: embed_result_def split: http_reply.splits if_splits sum.splits)

lemma EmbedChunks_loop_Inr:
  assumes "EmbedChunks_loop E w i cs out = (Inr res, w')" and "length out = i + length cs"
  shows "length res = length out \<and> take i res = take i out
       \<and> (\<forall>j<length cs. embed_result E (trace w @ map EmbedPost (take j cs)) (cs ! j) = Inr (res ! (i + j)))"
  using assms
proof (induction cs arbitrary: w i out)
  case Nil
  then show ?case by simp
next
  case (Cons c cs)
  from Cons.prems(1) obtain v where
    first: "embed_result E (trace w) c = Inr v" and
    loop: "EmbedChunks_loop E (record_event (EmbedPost c) w) (Suc i) cs (out[i := v]) = (Inr res, w')"
    by (auto simp: getOllamaEmbedding_def split: sum.splits)
  have len: "length (out[i := v]) = Suc i + length cs" using Cons.prems(2) by simp
  from Cons.IH [OF loop len] have ih: "length res = length out"
    "take (Suc i) res = take (Suc i) (out[i := v])"
    "\<And>j. j < length cs \<Longrightarrow> embed_result E (trace w @ EmbedPost c # map EmbedPost (take j cs)) (cs ! j) = Inr (res ! (Suc i + j))"
    by simp_all
  have i: "i < length out" "i < length res" using Cons.prems(2) ih(1) by simp_all
  have "take (Suc i) res = take i res @ [res ! i]" using i by (simp add: take_Suc_conv_app_nth)
  moreover have "take (Suc i) (out[i := v]) = take i out @ [v]"
    using i by (simp add: take_Suc_conv_app_nth)
  ultimately have eq: "take i res = take i out" "res ! i = v" using ih(2) by simp_all
  have "embed_result E (trace w @ map EmbedPost (take j (c # cs))) ((c # cs) ! j) = Inr (res ! (i + j))"
    if "j < length (c # cs)" for j
  proof (cases j)
    case 0
    then show ?thesis using first eq(2) by simp
  next
    case (Suc j')
    then have "j' < length cs" using that by simp
    from ih(3) [OF this] show ?thesis using Suc by simp
  qed
  then show ?case using ih(1) eq(1) by blast
qed

lemma embed_result_demo:
  "embed_result demo_env h t
     = (if t = ''bad'' then Inl (ExpectedEmbeddingDim 768 3) else Inr (replicate 768 0))"
  by (simp add: embed_result_def demo_env_def EmbeddingDim_def)

text \<open>
  C4. Embedding a batch. For a non-empty list of chunks, when every call of the backend
  succeeds (the reply to chunk \<open>i\<close>, at the history of the calls made before it, gives
  the vector \<open>vs ! i\<close>), \<open>EmbedChunks\<close> returns exactly these vectors, one per chunk in
  the order of the chunks, after one call per chunk. When the calls for the chunks before
  index \<open>i\<close> succeed and the call for chunk \<open>i\<close> fails with \<open>err\<close> (a transport
  error, a status other than 200, an undecodable body or a vector of the wrong
  dimension), the batch returns no vector, only the error \<open>FailedEmbeddingChunk i err\<close>
  carrying the index \<open>i\<close> counted from zero, and no chunk after \<open>i\<close> is sent.
\<close>

theorem EmbedChunks_batch:
  assumes "chunks \<noteq> []"
  shows "((length vs = length chunks
           \<and> (\<forall>i<length chunks.
                 embed_result E (trace w @ map EmbedPost (take i chunks)) (chunks ! i) = Inr (vs ! i)))
          \<longrightarrow> EmbedChunks E w chunks = (Inr vs, w\<lparr>trace := trace w @ map EmbedPost chunks\<rparr>))
       \<and> ((i < length chunks
           \<and> (\<forall>j<i. \<exists>v. embed_result E (trace w @ map EmbedPost (take j chunks)) (chunks ! j) = Inr v)
           \<and> embed_result E (trace w @ map EmbedPost (take i chunks)) (chunks ! i) = Inl err)
          \<longrightarrow> EmbedChunks E w chunks
                = (Inl (FailedEmbeddingChunk i err),
                   w\<lparr>trace := trace w @ map EmbedPost (take (Suc i) chunks)\<rparr>))"
proof (intro conjI impI)
  assume a: "length vs = length chunks
           \<and> (\<forall>i<length chunks.
                 embed_result E (trace w @ map EmbedPost (take i chunks)) (chunks ! i) = Inr (vs ! i))"
  have "length (replicate (length chunks) ([]::float32 list)) = 0 + length chunks" by simp
  from EmbedChunks_loop_ok [OF this, of vs E w] a assms
  show "EmbedChunks E w chunks = (Inr vs, w\<lparr>trace := trace w @ map EmbedPost chunks\<rparr>)"
    by (simp add: EmbedChunks_def)
next
  assume a: "i < length chunks
           \<and> (\<forall>j<i. \<exists>v. embed_result E (trace w @ map EmbedPost (take j chunks)) (chunks ! j) = Inr v)
           \<and> embed_result E (trace w @ map EmbedPost (take i chunks)) (chunks ! i) = Inl err"
  then have "EmbedChunks_loop E w 0 chunks (replicate (length chunks) [])
      = (Inl (FailedEmbeddingChunk (0 + i) err), w\<lparr>trace := trace w @ map EmbedPost (take (Suc i) chunks)\<rparr>)"
    by (intro EmbedChunks_loop_fail) blast+
  then show "EmbedChunks E w chunks
                = (Inl (FailedEmbeddingChunk i err),
                   w\<lparr>trace := trace w @ map EmbedPost (take (Suc i) chunks)\<rparr>)"
    using assms by (simp add: EmbedChunks_def)
qed

theorem EmbedChunks_batch_witness:
  "EmbedChunks demo_env world0 [''a'', ''b'']
     = (Inr [replicate 768 0, replicate 768 0], world0\<lparr>trace := [EmbedPost ''a'', EmbedPost ''b'']\<rparr>)
   \<and> EmbedChunks demo_env world0 [''a'', ''bad'', ''c'']
     = (Inl (FailedEmbeddingChunk 1 (ExpectedEmbeddingDim 768 3)),
        world0\<lparr>trace := [EmbedPost ''a'', EmbedPost ''bad'']\<rparr>)"
proof -
  let ?vs = "[replicate 768 0, replicate 768 0] :: float32 list list"
  have ne: "[''a'', ''b''] \<noteq> []" "[''a'', ''bad'', ''c''] \<noteq> []" by simp_all
  have ok: "length ?vs = length [''a'', ''b'']
      \<and> (\<forall>i<length [''a'', ''b''].
            embed_result demo_env (trace world0 @ map EmbedPost (take i [''a'', ''b''])) ([''a'', ''b''] ! i)
              = Inr (?vs ! i))"
    by (simp add: embed_result_demo nth_Cons split: nat.splits)
  have bad: "1 < length [''a'', ''bad'', ''c'']
      \<and> (\<forall>j<1. \<exists>v. embed_result demo_env (trace world0 @ map EmbedPost (take j [''a'', ''bad'', ''c'']))
                        ([''a'', ''bad'', ''c''] ! j) = Inr v)
      \<and> embed_result demo_env (trace world0 @ map EmbedPost (take 1 [''a'', ''bad'', ''c'']))
                        ([''a'', ''bad'', ''c''] ! 1) = Inl (ExpectedEmbeddingDim 768 3)"
    by (simp add: embed_result_demo)
  from EmbedChunks_batch [OF ne(1), of ?vs demo_env world0] ok
  have 1: "EmbedChunks demo_env world0 [''a'', ''b'']
     = (Inr ?vs, world0\<lparr>trace := trace world0 @ map EmbedPost [''a'', ''b'']\<rparr>)" by blast
  from EmbedChunks_batch [OF ne(2), of _ demo_env world0 1 "ExpectedEmbeddingDim 768 3"] bad
  have 2: "EmbedChunks demo_env world0 [''a'', ''bad'', ''c'']
     = (Inl (FailedEmbeddingChunk 1 (ExpectedEmbeddingDim 768 3)),
        world0\<lparr>trace := trace world0 @ map EmbedPost (take (Suc 1) [''a'', ''bad'', ''c''])\<rparr>)" by blast
  show ?thesis using 1 2 by (simp add: world0_def)
qed

lemma embed_result_wrong_dim:
  assumes "embed_post E h t = HttpResponse 200 body" "decode_embedding E body = Inr v"
    "length v \<noteq> 768"
  shows "embed_result E h t = Inl (ExpectedEmbeddingDim 768 (length v))"
  using assms by (simp add: embed_result_def EmbeddingDim_def)

text \<open>
  C5. A vector of the wrong dimension is rejected, never coerced. Let the backend answer
  with status 200 and a body that decodes to a vector \<open>v\<close> whose length is not 768.
  On the query path \<open>QueryEmbedding\<close> returns the error \<open>ExpectedEmbeddingDim 768
  (length v)\<close>; on the batch path, when that reply is the one to chunk \<open>i\<close> and the
  chunks before it succeeded, \<open>EmbedChunks\<close> returns that error for index \<open>i\<close>.
  Conversely every vector either path returns with success is, unchanged, the vector
  decoded from the reply to its own call, and has 768 components.
\<close>

theorem wrong_dimension_rejected:
  assumes "decode_embedding E body = Inr v" and "length v \<noteq> 768"
  shows "(query \<noteq> [] \<and> embed_post E (trace w) query = HttpResponse 200 body
            \<longrightarrow> fst (QueryEmbedding E w query) = Inl (ExpectedEmbeddingDim 768 (length v)))
       \<and> (i < length chunks
            \<and> (\<forall>j<i. \<exists>u. embed_result E (trace w @ map EmbedPost (take j chunks)) (chunks ! j) = Inr u)
            \<and> embed_post E (trace w @ map EmbedPost (take i chunks)) (chunks ! i) = HttpResponse 200 body
            \<longrightarrow> fst (EmbedChunks E w chunks)
                  = Inl (FailedEmbeddingChunk i (ExpectedEmbeddingDim 768 (length v))))
       \<and> (\<forall>u. fst (QueryEmbedding E w query) = Inr u
            \<longrightarrow> length u = 768
              \<and> (\<exists>b. embed_post E (trace w) query = HttpResponse 200 b \<and> decode_embedding E b = Inr u))
       \<and> (\<forall>us. fst (EmbedChunks E w chunks) = Inr us
            \<longrightarrow> length us = length chunks
              \<and> (\<forall>j<length chunks. length (us ! j) = 768
                    \<and> (\<exists>b. embed_post E (trace w @ map EmbedPost (take j chunks)) (chunks ! j)
                              = HttpResponse 200 b
                          \<and> decode_embedding E b = Inr (us ! j))))"
proof -
  have p1: "query \<noteq> [] \<and> embed_post E (trace w) query = HttpResponse 200 body
            \<longrightarrow> fst (QueryEmbedding E w query) = Inl (ExpectedEmbeddingDim 768 (length v))"
    using embed_result_wrong_dim [OF _ assms, of "trace w" query]
    by (simp add: QueryEmbedding_def getOllamaEmbedding_def)
  have p2: "i < length chunks
            \<and> (\<forall>j<i. \<exists>u. embed_result E (trace w @ map EmbedPost (take j chunks)) (chunks ! j) = Inr u)
            \<and> embed_post E (trace w @ map EmbedPost (take i chunks)) (chunks ! i) = HttpResponse 200 body
            \<longrightarrow> fst (EmbedChunks E w chunks)
                  = Inl (FailedEmbeddingChunk i (ExpectedEmbeddingDim 768 (length v)))"
  proof
    assume a: "i < length chunks
            \<and> (\<forall>j<i. \<exists>u. embed_result E (trace w @ map EmbedPost (take j chunks)) (chunks ! j) = Inr u)
            \<and> embed_post E (trace w @ map EmbedPost (take i chunks)) (chunks ! i) = HttpResponse 200 body"
    then have ne: "chunks \<noteq> []" by auto
    from a have "embed_result E (trace w @ map EmbedPost (take i chunks)) (chunks ! i)
                   = Inl (ExpectedEmbeddingDim 768 (length v))"
      using embed_result_wrong_dim [OF _ assms] by blast
    with a have "EmbedChunks_loop E w 0 chunks (replicate (length chunks) [])
        = (Inl (FailedEmbeddingChunk (0 + i) (ExpectedEmbeddingDim 768 (length v))),
           w\<lparr>trace := trace w @ map EmbedPost (take (Suc i) chunks)\<rparr>)"
      by (intro EmbedChunks_loop_fail) blast+
    then show "fst (EmbedChunks E w chunks)
                    = Inl (FailedEmbeddingChunk i (ExpectedEmbeddingDim 768 (length v)))"
      using ne by (simp add: EmbedChunks_def)
  qed
  have p3: "\<forall>u. fst (QueryEmbedding E w query) = Inr u
            \<longrightarrow> length u = 768
              \<and> (\<exists>b. embed_post E (trace w) query = HttpResponse 200 b \<and> decode_embedding E b = Inr u)"
  proof (intro allI impI)
    fix u assume "fst (QueryEmbedding E w query) = Inr u"
    then have "embed_result E (trace w) query = Inr u"
      by (simp add: QueryEmbedding_def getOllamaEmbedding_def split: if_splits)
    from embed_result_Inr [OF this]
    show "length u = 768
          \<and> (\<exists>b. embed_post E (trace w) query = HttpResponse 200 b \<and> decode_embedding E b = Inr u)"
      by (simp add: EmbeddingDim_def)
  qed
  have p4: "\<forall>us. fst (EmbedChunks E w chunks) = Inr us
            \<longrightarrow> length us = length chunks
              \<and> (\<forall>j<length chunks. length (us ! j) = 768
                    \<and> (\<exists>b. embed_post E (trace w @ map EmbedPost (take j chunks)) (chunks ! j)
                              = HttpResponse 200 b
                          \<and> decode_embedding E b = Inr (us ! j)))"
  proof (intro allI impI)
    fix us assume a: "fst (EmbedChunks E w chunks) = Inr us"
    then have ne: "chunks \<noteq> []" by (auto simp: EmbedChunks_def)
    with a obtain w' where
      loop: "EmbedChunks_loop E w 0 chunks (replicate (length chunks) []) = (Inr us, w')"
      by (cases "EmbedChunks_loop E w 0 chunks (replicate (length chunks) [])")
         (simp add: EmbedChunks_def)
    have "length (replicate (length chunks) ([]::float32 list)) = 0 + length chunks" by simp
    from EmbedChunks_loop_Inr [OF loop this]
    have len: "length us = length chunks"
      and each: "\<And>j. j < length chunks \<Longrightarrow>
         embed_result E (trace w @ map EmbedPost (take j chunks)) (chunks ! j) = Inr (us ! j)"
      by simp_all
    show "length us = length chunks
          \<and> (\<forall>j<length chunks. length (us ! j) = 768
                \<and> (\<exists>b. embed_post E (trace w @ map EmbedPost (take j chunks)) (chunks ! j)
                          = HttpResponse 200 b
                      \<and> decode_embedding E b = Inr (us ! j)))"
      using len embed_result_Inr [OF each] by (simp add: EmbeddingDim_def)
  qed
  show ?thesis by (intro conjI) (rule p1, rule p2, rule p3, rule p4)
qed

theorem wrong_dimension_rejected_witness:
  "fst (QueryEmbedding demo_env world0 ''bad'') = Inl (ExpectedEmbeddingDim 768 3)
   \<and> fst (EmbedChunks demo_env world0 [''a'', ''bad''])
       = Inl (FailedEmbeddingChunk 1 (ExpectedEmbeddingDim 768 3))
   \<and> fst (QueryEmbedding demo_env world0 ''a'') = Inr (replicate 768 0)
   \<and> length (replicate 768 (0::float32)) = 768"
proof -
  have d: "decode_embedding demo_env ''short'' = Inr [0, 0, 0]" "length [0, 0, 0 :: float32] \<noteq> 768"
    by (simp_all add: demo_env_def)
  have q: "''bad'' \<noteq> [] \<and> embed_post demo_env (trace world0) ''bad'' = HttpResponse 200 ''short''"
    by (simp add: demo_env_def)
  have b: "1 < length [''a'', ''bad'']
      \<and> (\<forall>j<1. \<exists>u. embed_result demo_env (trace world0 @ map EmbedPost (take j [''a'', ''bad'']))
                       ([''a'', ''bad''] ! j) = Inr u)
      \<and> embed_post demo_env (trace world0 @ map EmbedPost (take 1 [''a'', ''bad''])) ([''a'', ''bad''] ! 1)
          = HttpResponse 200 ''short''"
    by (simp add: embed_result_demo) (simp add: demo_env_def)
  have ok: "fst (QueryEmbedding demo_env world0 ''a'') = Inr (replicate 768 0)"
    by (simp add: QueryEmbedding_def getOllamaEmbedding_def embed_result_demo)
  note inst = wrong_dimension_rejected [OF d, where w = world0]
  from inst [where query = "''bad''" and i = 1 and chunks = "[''a'', ''bad'']"] q b
  have 1: "fst (QueryEmbedding demo_env world0 ''bad'') = Inl (ExpectedEmbeddingDim 768 (length [0, 0, 0 :: float32]))"
    and 2: "fst (EmbedChunks demo_env world0 [''a'', ''bad''])
       = Inl (FailedEmbeddingChunk 1 (ExpectedEmbeddingDim 768 (length [0, 0, 0 :: float32])))"
    by blast+
  from inst [where query = "''a''" and i = 0 and chunks = "[]"] ok
  have 3: "length (replicate 768 (0::float32)) = 768" by blast
  show ?thesis using 1 2 3 ok by simp
qed

text \<open>
  C10. \<open>EmbedChunks\<close> on the empty list returns the error \<open>NoChunks\<close> ("no chunks")
  without touching the world. Hence a file whose extracted text gives zero chunks is
  dropped by the ingestion loop at the embedding step, with that error: the loop body
  ends in the \<open>EmbedError\<close> branch, in the world as extraction left it (no backend call,
  no insert). A text made of white space only is such a text.
\<close>

theorem EmbedChunks_no_chunks:
  "EmbedChunks E w [] = (Inl NoChunks, w)
   \<and> (ExtractText E w f = (Inr txt, w1) \<and> ChunkText txt = Some []
        \<longrightarrow> index_file E w f = Some (EmbedError NoChunks, w1))
   \<and> ((\<forall>c\<in>set txt. asciiSpace c) \<longrightarrow> ChunkText txt = Some [])"
  by (simp add: EmbedChunks_def index_file_def ChunkText_blank)

theorem EmbedChunks_no_chunks_witness:
  "ExtractText demo_env world0 ''blank.txt''
     = (Inr [CHR 0x20, CHR 0x0A, CHR 0x0A, CHR 0x20], world0\<lparr>trace := [ReadFile ''blank.txt'']\<rparr>)
   \<and> ChunkText [CHR 0x20, CHR 0x0A, CHR 0x0A, CHR 0x20] = Some []
   \<and> index_file demo_env world0 ''blank.txt''
       = Some (EmbedError NoChunks, world0\<lparr>trace := [ReadFile ''blank.txt'']\<rparr>)"
proof -
  let ?t = "[CHR 0x20, CHR 0x0A, CHR 0x0A, CHR 0x20]"
  let ?w = "world0\<lparr>trace := [ReadFile ''blank.txt'']\<rparr>"
  have x: "ExtractText demo_env world0 ''blank.txt'' = (Inr ?t, ?w)"
    by (simp add: ExtractText_def Ext_def ToLower_def lower_char_def demo_env_def
        record_event_def world0_def)
  have sp: "\<forall>c\<in>set ?t. asciiSpace c" by (simp add: asciiSpace_def)
  from EmbedChunks_no_chunks [of demo_env world0 "''blank.txt''" ?t ?w] x sp
  show ?thesis by blast
qed

section \<open>Properties of the extractor\<close>

lemma set_write_file: "set (write_file f dir) = insert f (set dir)"
  by (induction dir) auto

lemma set_write_files: "set (write_files fs dir) = set dir \<union> set fs"
  unfolding write_files_def
  by (induction fs arbitrary: dir) (auto simp: set_write_file)

lemma ocr_pages_result:
  "ocr_pages E w ms combined =
     (combined @ concat (map (\<lambda>j. case tesseract E (trace w @ map Tesseract (take j ms)) (ms ! j) of
                                     Inl err \<Rightarrow> []
                                   | Inr t \<Rightarrow> TrimSpace t @ [CHR 0x0A])
                             [0..<length ms]),
      w\<lparr>trace := trace w @ map Tesseract ms\<rparr>)"
proof (induction ms arbitrary: w combined)
  case Nil
  show ?case by simp
next
  case (Cons m ms)
  let ?w1 = "record_event (Tesseract m) w"
  have "[0..<Suc (length ms)] = 0 # [Suc 0..<Suc (length ms)]"
    by (rule upt_conv_Cons) simp
  then have upt: "[0..<length (m # ms)] = 0 # map Suc [0..<length ms]"
    by (simp only: map_Suc_upt length_Cons)
  show ?case
    unfolding upt
    by (cases "tesseract E (trace w) m")
       (simp_all add: runTesseract_def Cons.IH record_event_trace_update comp_def)
qed

lemma ExtractTextFromPDF_trace:
  assumes "ExtractTextFromPDF E w path = (r, w1)"
  shows "tmp_pngs w1 = tmp_pngs w
       \<and> (\<exists>evs. trace w1 = trace w @ evs \<and> filter is_Pdftoppm evs = [])"
  using assms
  by (auto simp: ExtractTextFromPDF_def Let_def split: sum.splits if_splits)

lemma ExtractTextWithOCR_pdf_trace:
  assumes "ToLower (Ext path) = ''.pdf''"
  shows "\<exists>evs. trace (snd (ExtractTextWithOCR E w path)) = trace w @ Pdftoppm path # evs
             \<and> filter is_Pdftoppm evs = []"
proof -
  have f: "filter is_Pdftoppm (map Tesseract ms) = []" for ms
    by (induction ms) simp_all
  show ?thesis
    using assms f
    by (auto simp: ExtractTextWithOCR_def Let_def ocr_pages_result
             split: prod.splits option.splits)
qed

lemma ChunkText_Nil: "ChunkText [] = Some []"
  by (simp add: ChunkText_def)

lemma pdf_ext [simp]: "ToLower (Ext ''scan.pdf'') = ''.pdf''"
  by (simp add: ToLower_def Ext_def lower_char_def)

lemma TrimSpace_blank1: "TrimSpace [CHR 0x20] = []"
  by (rule TrimSpace_all_space) (simp add: asciiSpace_def)

lemma TrimSpace_blank2: "TrimSpace [CHR 0x20, CHR 0x20] = []"
  by (rule TrimSpace_all_space) (simp add: asciiSpace_def)

lemma TrimSpace_newlines: "TrimSpace [CHR 0x0A, CHR 0x0A] = []"
  by (rule TrimSpace_all_space) (simp add: asciiSpace_def)

lemma ExtractTextFromPDF_scan:
  "pdf_plain_text E = pdf_plain_text demo_env \<Longrightarrow> pdftotext E = pdftotext demo_env \<Longrightarrow>
   ExtractTextFromPDF E world0 ''scan.pdf''
     = (Inr [], world0\<lparr>trace := [PdfOpen ''scan.pdf'', Pdftotext ''scan.pdf'']\<rparr>)"
  by (simp add: ExtractTextFromPDF_def demo_env_def TrimSpace_blank2
      record_event_def world0_def)

lemma ExtractTextWithOCR_blank_scan:
  "ExtractTextWithOCR blank_env (world0\<lparr>trace := [PdfOpen ''scan.pdf'', Pdftotext ''scan.pdf'']\<rparr>) ''scan.pdf''
     = (Inr [],
        \<lparr>tmp_pngs = [''/tmp/uda_pdfimg-1.png'', ''/tmp/uda_pdfimg-2.png''],
         trace = [PdfOpen ''scan.pdf'', Pdftotext ''scan.pdf'', Pdftoppm ''scan.pdf'',
                  Tesseract ''/tmp/uda_pdfimg-1.png'', Tesseract ''/tmp/uda_pdfimg-2.png'']\<rparr>)"
  by (simp add: ExtractTextWithOCR_def blank_env_def demo_env_def write_files_def
      runTesseract_def TrimSpace_blank1 TrimSpace_newlines record_event_def world0_def)

lemma ExtractTextWithOCR_failing_scan:
  "ExtractTextWithOCR failing_env (world0\<lparr>trace := [PdfOpen ''scan.pdf'', Pdftotext ''scan.pdf'']\<rparr>) ''scan.pdf''
     = (Inl (PdftoppmConvertFailed (LibError ''exit status 1'')),
        \<lparr>tmp_pngs = [],
         trace = [PdfOpen ''scan.pdf'', Pdftotext ''scan.pdf'', Pdftoppm ''scan.pdf'']\<rparr>)"
  by (simp add: ExtractTextWithOCR_def failing_env_def demo_env_def write_files_def
      record_event_def world0_def)

text \<open>
  C2, as the claim states it, fails. In the world \<open>blank_env\<close> the text layer of
  \<open>scan.pdf\<close> holds blanks only and the optical path recognises no text on either page.
  \<open>ExtractText\<close> then returns the empty text with no error, so the result is not an
  extraction failure; the ingestion loop drops the file only afterwards, in its
  embed-error branch.
\<close>

theorem ExtractText_blank_scan_is_success:
  "fst (ExtractTextFromPDF blank_env world0 ''scan.pdf'') = Inr []
   \<and> fst (ExtractText blank_env world0 ''scan.pdf'') = Inr []
   \<and> map_option fst (index_file blank_env world0 ''scan.pdf'') = Some (EmbedError NoChunks)"
proof -
  have a: "ExtractTextFromPDF blank_env world0 ''scan.pdf''
      = (Inr [], world0\<lparr>trace := [PdfOpen ''scan.pdf'', Pdftotext ''scan.pdf'']\<rparr>)"
    by (rule ExtractTextFromPDF_scan) (simp_all add: blank_env_def)
  have b: "fst (ExtractText blank_env world0 ''scan.pdf'') = Inr []"
    by (simp add: ExtractText_def Let_def a ExtractTextWithOCR_blank_scan)
  have c: "map_option fst (index_file blank_env world0 ''scan.pdf'') = Some (EmbedError NoChunks)"
    by (simp add: index_file_def ExtractText_def Let_def a ExtractTextWithOCR_blank_scan
        ChunkText_Nil EmbedChunks_def)
  show ?thesis using a b c by simp
qed

text \<open>
  C2, amended. For every \<open>.pdf\<close> file whose text-layer extraction fails or yields white
  space only, \<open>ExtractText\<close> runs the optical fallback exactly once (one page
  conversion is started, after the text-layer attempt) and returns what the fallback
  returns. When the fallback fails, its error is the extraction failure and the loop
  body of the ingestion skips the file. When the fallback succeeds without any text,
  \<open>ExtractText\<close> returns the empty text with no error: this is not an extraction
  failure; the loop body goes on, and the file is dropped at the embedding step with the
  error "no chunks", the world being as the fallback left it.
\<close>

theorem ExtractText_pdf_fallback:
  assumes "ToLower (Ext path) = ''.pdf''"
    and "ExtractTextFromPDF E w path = (r, w1)"
    and "case r of Inl err \<Rightarrow> True | Inr txt \<Rightarrow> TrimSpace txt = []"
  shows "ExtractText E w path = ExtractTextWithOCR E w1 path
       \<and> (\<exists>evs. trace (snd (ExtractText E w path)) = trace w @ evs
                \<and> filter is_Pdftoppm evs = [Pdftoppm path])
       \<and> (\<forall>err. fst (ExtractTextWithOCR E w1 path) = Inl err
            \<longrightarrow> index_file E w path = Some (SkipFile err, snd (ExtractTextWithOCR E w1 path)))
       \<and> (fst (ExtractTextWithOCR E w1 path) = Inr []
            \<longrightarrow> fst (ExtractText E w path) = Inr []
              \<and> index_file E w path
                  = Some (EmbedError NoChunks, snd (ExtractTextWithOCR E w1 path)))"
proof -
  have ext: "ToLower (Ext path) \<noteq> ''.txt''" "ToLower (Ext path) \<noteq> ''.md''"
    using assms(1) by simp_all
  have eq: "ExtractText E w path = ExtractTextWithOCR E w1 path"
    using assms ext by (cases r) (simp_all add: ExtractText_def Let_def)
  obtain evs1 where evs1: "trace w1 = trace w @ evs1" "filter is_Pdftoppm evs1 = []"
    using ExtractTextFromPDF_trace [OF assms(2)] by blast
  obtain evs2 where evs2:
    "trace (snd (ExtractTextWithOCR E w1 path)) = trace w1 @ Pdftoppm path # evs2"
    "filter is_Pdftoppm evs2 = []"
    using ExtractTextWithOCR_pdf_trace [OF assms(1), of E w1] by blast
  have once: "\<exists>evs. trace (snd (ExtractText E w path)) = trace w @ evs
                \<and> filter is_Pdftoppm evs = [Pdftoppm path]"
  proof (intro exI conjI)
    show "trace (snd (ExtractText E w path)) = trace w @ (evs1 @ Pdftoppm path # evs2)"
      using eq evs1(1) evs2(1) by simp
    show "filter is_Pdftoppm (evs1 @ Pdftoppm path # evs2) = [Pdftoppm path]"
      using evs1(2) evs2(2) by simp
  qed
  have skip: "\<forall>err. fst (ExtractTextWithOCR E w1 path) = Inl err
            \<longrightarrow> index_file E w path = Some (SkipFile err, snd (ExtractTextWithOCR E w1 path))"
    by (cases "ExtractTextWithOCR E w1 path") (simp add: index_file_def eq)
  have drop: "fst (ExtractTextWithOCR E w1 path) = Inr []
            \<longrightarrow> fst (ExtractText E w path) = Inr []
              \<and> index_file E w path
                  = Some (EmbedError NoChunks, snd (ExtractTextWithOCR E w1 path))"
    by (cases "ExtractTextWithOCR E w1 path")
       (simp add: index_file_def eq ChunkText_Nil EmbedChunks_def)
  show ?thesis using eq once skip drop by blast
qed

theorem ExtractText_pdf_fallback_witness:
  "index_file blank_env world0 ''scan.pdf''
     = Some (EmbedError NoChunks,
             \<lparr>tmp_pngs = [''/tmp/uda_pdfimg-1.png'', ''/tmp/uda_pdfimg-2.png''],
              trace = [PdfOpen ''scan.pdf'', Pdftotext ''scan.pdf'', Pdftoppm ''scan.pdf'',
                       Tesseract ''/tmp/uda_pdfimg-1.png'', Tesseract ''/tmp/uda_pdfimg-2.png'']\<rparr>)
   \<and> index_file failing_env world0 ''scan.pdf''
     = Some (SkipFile (PdftoppmConvertFailed (LibError ''exit status 1'')),
             \<lparr>tmp_pngs = [],
              trace = [PdfOpen ''scan.pdf'', Pdftotext ''scan.pdf'', Pdftoppm ''scan.pdf'']\<rparr>)"
proof -
  let ?w1 = "world0\<lparr>trace := [PdfOpen ''scan.pdf'', Pdftotext ''scan.pdf'']\<rparr>"
  have h1: "ToLower (Ext ''scan.pdf'') = ''.pdf''" by simp
  have h2: "ExtractTextFromPDF blank_env world0 ''scan.pdf'' = (Inr [], ?w1)"
    by (rule ExtractTextFromPDF_scan) (simp_all add: blank_env_def)
  have h2': "ExtractTextFromPDF failing_env world0 ''scan.pdf'' = (Inr [], ?w1)"
    by (rule ExtractTextFromPDF_scan) (simp_all add: failing_env_def)
  have h3: "case Inr [] of Inl (err::error) \<Rightarrow> True | Inr txt \<Rightarrow> TrimSpace txt = []"
    by simp
  from ExtractText_pdf_fallback [OF h1 h2 h3]
  have 1: "index_file blank_env world0 ''scan.pdf''
      = Some (EmbedError NoChunks, snd (ExtractTextWithOCR blank_env ?w1 ''scan.pdf''))"
    by (simp add: ExtractTextWithOCR_blank_scan)
  from ExtractText_pdf_fallback [OF h1 h2' h3]
  have 2: "index_file failing_env world0 ''scan.pdf''
      = Some (SkipFile (PdftoppmConvertFailed (LibError ''exit status 1'')),
              snd (ExtractTextWithOCR failing_env ?w1 ''scan.pdf''))"
    by (simp add: ExtractTextWithOCR_failing_scan)
  show ?thesis using 1 2
    by (simp add: ExtractTextWithOCR_blank_scan ExtractTextWithOCR_failing_scan)
qed

lemma pdf_ext_ab [simp]:
  "ToLower (Ext ''a.pdf'') = ''.pdf''" "ToLower (Ext ''b.pdf'') = ''.pdf''"
  by (simp_all add: ToLower_def Ext_def lower_char_def)

lemma TrimSpace_page_texts:
  "TrimSpace ''A page 1'' = ''A page 1''"
  "TrimSpace ''A page 2'' = ''A page 2''"
  "TrimSpace ''B page 1'' = ''B page 1''"
  "TrimSpace ''A page 1\<newline>A page 2\<newline>'' = ''A page 1\<newline>A page 2''"
  "TrimSpace ''B page 1\<newline>A page 2\<newline>'' = ''B page 1\<newline>A page 2''"
  by (simp_all add: TrimSpace_eval)

lemma ExtractTextWithOCR_stale_a:
  "ExtractTextWithOCR stale_env world0 ''a.pdf''
     = (Inr ''A page 1\<newline>A page 2'',
        \<lparr>tmp_pngs = [''/tmp/uda_pdfimg-1.png'', ''/tmp/uda_pdfimg-2.png''],
         trace = [Pdftoppm ''a.pdf'', Tesseract ''/tmp/uda_pdfimg-1.png'',
                  Tesseract ''/tmp/uda_pdfimg-2.png'']\<rparr>)"
  by (simp add: ExtractTextWithOCR_def stale_env_def demo_env_def write_files_def
      runTesseract_def TrimSpace_page_texts record_event_def world0_def)

text \<open>
  C9. The page images written for recognition should be removed before the fallback
  returns. The code never removes them, and it lists the images by the fixed pattern
  \<open>uda_pdfimg-*.png\<close>, so the images of one PDF are read again as pages of the next.
  In the world \<open>stale_env\<close> the temporary directory is empty at first. After the
  fallback has returned for the two-page \<open>a.pdf\<close>, both page images are still there;
  the fallback for the one-page \<open>b.pdf\<close> then returns the text of its own page
  followed by the text of the second page of \<open>a.pdf\<close>.
\<close>

theorem ExtractTextWithOCR_stale_pages:
  "tmp_pngs world0 = []
   \<and> tmp_pngs (snd (ExtractTextWithOCR stale_env world0 ''a.pdf''))
       = [''/tmp/uda_pdfimg-1.png'', ''/tmp/uda_pdfimg-2.png'']
   \<and> fst (ExtractTextWithOCR stale_env (snd (ExtractTextWithOCR stale_env world0 ''a.pdf'')) ''b.pdf'')
       = Inr ''B page 1\<newline>A page 2''"
  by (simp add: ExtractTextWithOCR_stale_a)
     (simp add: ExtractTextWithOCR_def stale_env_def demo_env_def write_files_def
        runTesseract_def TrimSpace_page_texts record_event_def world0_def)

section \<open>Properties of the workflow stages\<close>

text \<open>
  C6. In every workflow state whose list of retrieved documents is empty,
  \<open>SummarizerNode\<close> sets the answer to the fixed message "No documents found matching
  the query.", returns no error, and leaves the world as it was: its trace gains no
  event, so the generation backend is not called.
\<close>

theorem SummarizerNode_no_documents:
  assumes "Docs s = []"
  shows "SummarizerNode E w s = ((None, s\<lparr>Ans := ''No documents found matching the query.''\<rparr>), w)
       \<and> trace (snd (SummarizerNode E w s)) = trace w"
  using assms by (simp add: SummarizerNode_def)

theorem SummarizerNode_no_documents_witness:
  "Docs (demo_state\<lparr>Docs := []\<rparr>) = []
   \<and> SummarizerNode demo_env world0 (demo_state\<lparr>Docs := []\<rparr>)
       = ((None, demo_state\<lparr>Docs := [], Ans := ''No documents found matching the query.''\<rparr>), world0)
   \<and> trace (snd (SummarizerNode demo_env world0 (demo_state\<lparr>Docs := []\<rparr>))) = []"
proof -
  have h: "Docs (demo_state\<lparr>Docs := []\<rparr>) = []" by simp
  from SummarizerNode_no_documents [OF h, of demo_env world0] h
  show ?thesis by (simp add: world0_def)
qed

lemma read_stream_fragments:
  "read_stream (map (\<lambda>r. Fragment r False) rs @ rest) summary
     = read_stream rest (summary @ concat rs)"
  by (induction rs arbitrary: summary) simp_all

text \<open>
  C7. Reading the generation stream, once the request has been sent for a non-empty
  document list. The fragments are concatenated in arrival order. If the stream ends
  after fragments none of which is flagged done, the answer is their concatenation. If
  a fragment flagged done arrives after such fragments, the answer is their
  concatenation followed by the text of that fragment, and whatever follows it on the
  stream is not read and does not appear in the answer. If a decode failure arrives
  after such fragments, the stage returns the error \<open>DecodingOllamaResponse\<close> and the
  state keeps the answer it had.
\<close>

theorem SummarizerNode_stream:
  assumes "Docs s \<noteq> []"
    and "new_request_error E = None"
    and "generate E (trace w) (summarize_prompt E s) = Body stream"
  shows "(stream = map (\<lambda>r. Fragment r False) rs
            \<longrightarrow> SummarizerNode E w s
                  = ((None, s\<lparr>Ans := concat rs\<rparr>),
                     record_event (GeneratePost (summarize_prompt E s)) w))
       \<and> (stream = map (\<lambda>r. Fragment r False) rs @ Fragment r True # rest
            \<longrightarrow> SummarizerNode E w s
                  = ((None, s\<lparr>Ans := concat rs @ r\<rparr>),
                     record_event (GeneratePost (summarize_prompt E s)) w))
       \<and> (stream = map (\<lambda>r. Fragment r False) rs @ DecodeError err # rest
            \<longrightarrow> SummarizerNode E w s
                  = ((Some (DecodingOllamaResponse err), s),
                     record_event (GeneratePost (summarize_prompt E s)) w))"
proof -
  have eof: "read_stream (map (\<lambda>r. Fragment r False) rs) [] = Inr (concat rs)"
    using read_stream_fragments [of rs "[]" "[]"] by simp
  have fin: "read_stream (map (\<lambda>r. Fragment r False) rs @ Fragment r True # rest) []
               = Inr (concat rs @ r)"
    by (simp add: read_stream_fragments)
  have bad: "read_stream (map (\<lambda>r. Fragment r False) rs @ DecodeError err # rest) []
               = Inl (DecodingOllamaResponse err)"
    by (simp add: read_stream_fragments)
  show ?thesis
    using assms eof fin bad by (simp add: SummarizerNode_def Let_def)
qed

theorem SummarizerNode_stream_witness:
  "fst (SummarizerNode (stream_env [Fragment ''Hel'' False, Fragment ''lo'' False]) world0 demo_state)
     = (None, demo_state\<lparr>Ans := ''Hello''\<rparr>)
   \<and> fst (SummarizerNode
            (stream_env [Fragment ''Hel'' False, Fragment ''lo'' True, Fragment ''!'' False])
            world0 demo_state)
     = (None, demo_state\<lparr>Ans := ''Hello''\<rparr>)
   \<and> fst (SummarizerNode
            (stream_env [Fragment ''Hel'' False, DecodeError (LibError ''unexpected EOF''),
                         Fragment ''lo'' True])
            world0 demo_state)
     = (Some (DecodingOllamaResponse (LibError ''unexpected EOF'')), demo_state)"
proof -
  have d: "Docs demo_state \<noteq> []" by (simp add: demo_state_def)
  have n: "new_request_error (stream_env st) = None" for st
    by (simp add: stream_env_def demo_env_def)
  have g: "generate (stream_env st) (trace world0) (summarize_prompt (stream_env st) demo_state)
             = Body st" for st
    by (simp add: stream_env_def)
  have s1: "[Fragment ''Hel'' False, Fragment ''lo'' False]
              = map (\<lambda>r. Fragment r False) [''Hel'', ''lo'']"
    by simp
  have s2: "[Fragment ''Hel'' False, Fragment ''lo'' True, Fragment ''!'' False]
              = map (\<lambda>r. Fragment r False) [''Hel''] @ Fragment ''lo'' True # [Fragment ''!'' False]"
    by simp
  have s3: "[Fragment ''Hel'' False, DecodeError (LibError ''unexpected EOF''), Fragment ''lo'' True]
              = map (\<lambda>r. Fragment r False) [''Hel'']
                  @ DecodeError (LibError ''unexpected EOF'') # [Fragment ''lo'' True]"
    by simp
  let ?st1 = "[Fragment ''Hel'' False, Fragment ''lo'' False]"
  let ?st2 = "[Fragment ''Hel'' False, Fragment ''lo'' True, Fragment ''!'' False]"
  let ?st3 = "[Fragment ''Hel'' False, DecodeError (LibError ''unexpected EOF''), Fragment ''lo'' True]"
  from SummarizerNode_stream [OF d n [of ?st1] g [of ?st1], of "[''Hel'', ''lo'']" "[]" "[]" NoChunks,
      THEN conjunct1, THEN mp, OF s1]
  have 1: "fst (SummarizerNode (stream_env [Fragment ''Hel'' False, Fragment ''lo'' False]) world0 demo_state)
     = (None, demo_state\<lparr>Ans := concat [''Hel'', ''lo'']\<rparr>)"
    by simp
  from SummarizerNode_stream [OF d n [of ?st2] g [of ?st2], of "[''Hel'']" "''lo''"
      "[Fragment ''!'' False]" NoChunks, THEN conjunct2, THEN conjunct1, THEN mp, OF s2]
  have 2: "fst (SummarizerNode
            (stream_env [Fragment ''Hel'' False, Fragment ''lo'' True, Fragment ''!'' False])
            world0 demo_state)
     = (None, demo_state\<lparr>Ans := concat [''Hel''] @ ''lo''\<rparr>)"
    by simp
  from SummarizerNode_stream [OF d n [of ?st3] g [of ?st3], of "[''Hel'']" "[]"
      "[Fragment ''lo'' True]" "LibError ''unexpected EOF''",
      THEN conjunct2, THEN conjunct2, THEN mp, OF s3]
  have 3: "fst (SummarizerNode
            (stream_env [Fragment ''Hel'' False, DecodeError (LibError ''unexpected EOF''),
                         Fragment ''lo'' True])
            world0 demo_state)
     = (Some (DecodingOllamaResponse (LibError ''unexpected EOF'')), demo_state)"
    by simp
  show ?thesis using 1 2 3 by simp
qed

text \<open>
  C8, as the claim states it, fails: the stage counts bytes, not characters. The answer
  made of 25 letters e with acute accent (U+00E9, two bytes each) has 25 characters,
  fewer than 50, and 50 bytes; \<open>CriticNode\<close> returns it unchanged, with no suffix.
\<close>

theorem CriticNode_counts_bytes:
  "utf8_characters (concat (replicate 25 [CHR 0xC3, CHR 0xA9])) = 25
   \<and> length (concat (replicate 25 [CHR 0xC3, CHR 0xA9])) = 50
   \<and> CriticNode (demo_state\<lparr>Ans := concat (replicate 25 [CHR 0xC3, CHR 0xA9])\<rparr>)
       = (None, demo_state\<lparr>Ans := concat (replicate 25 [CHR 0xC3, CHR 0xA9])\<rparr>)"
  by (simp add: utf8_characters_e_acute length_concat_pairs CriticNode_def)

text \<open>
  C8, amended. The critique stage, with lengths in bytes. When the answer has fewer than
  50 bytes, \<open>CriticNode\<close> appends the advisory suffix to it, once, and changes nothing
  else in the state; when the answer has 50 bytes or more, the state is returned as it
  was. In both cases the stage returns no error.
\<close>

theorem CriticNode_length_heuristic:
  "(length (Ans s) < 50
      \<longrightarrow> CriticNode s
            = (None, s\<lparr>Ans := Ans s @ [CHR 0x0A, CHR 0x0A]
                 @ ''(Note: result short; consider rephrasing your query or indexing more documents.)''\<rparr>))
   \<and> (50 \<le> length (Ans s) \<longrightarrow> CriticNode s = (None, s))
   \<and> fst (CriticNode s) = None"
  by (simp add: CriticNode_def)

theorem CriticNode_length_heuristic_witness:
  "CriticNode (demo_state\<lparr>Ans := ''short''\<rparr>)
     = (None, demo_state\<lparr>Ans := ''short'' @ [CHR 0x0A, CHR 0x0A]
          @ ''(Note: result short; consider rephrasing your query or indexing more documents.)''\<rparr>)
   \<and> CriticNode (demo_state\<lparr>Ans := replicate 50 CHR ''x''\<rparr>)
     = (None, demo_state\<lparr>Ans := replicate 50 CHR ''x''\<rparr>)"
proof -
  have a: "length (Ans (demo_state\<lparr>Ans := ''short''\<rparr>)) < 50" by simp
  have b: "50 \<le> length (Ans (demo_state\<lparr>Ans := replicate 50 CHR ''x''\<rparr>))" by simp
  from CriticNode_length_heuristic [of "demo_state\<lparr>Ans := ''short''\<rparr>"] a
  have 1: "CriticNode (demo_state\<lparr>Ans := ''short''\<rparr>)
     = (None, demo_state\<lparr>Ans := ''short'' @ [CHR 0x0A, CHR 0x0A]
          @ ''(Note: result short; consider rephrasing your query or indexing more documents.)''\<rparr>)"
    by simp
  from CriticNode_length_heuristic [of "demo_state\<lparr>Ans := replicate 50 CHR ''x''\<rparr>"] b
  have 2: "CriticNode (demo_state\<lparr>Ans := replicate 50 CHR ''x''\<rparr>)
     = (None, demo_state\<lparr>Ans := replicate 50 CHR ''x''\<rparr>)"
    by simp
  show ?thesis using 1 2 by simp
qed

end
